theory Spec2Isabelle
  imports Complex_Main "HOL-Library.Log_Nat"
begin

section \<open>Numbers and values of the host language\<close>

text \<open>
  The source is Python. Integers are unbounded. Word timestamps, durations and the speed
  factor are Python floats, that is binary64 numbers. A float is embedded as the rational
  number it denotes, and an arithmetic operation on floats is the exact operation followed
  by rounding to the nearest number with a significand of 53 bits, a tie to the even
  significand. The exponent is not bounded in the embedding: overflow to infinity and the
  numbers below \<open>2 powi - 1022\<close>, which have fewer bits, are not part of it.
  Exceptions are values of \<open>error\<close>, named after the Python exception raised.
\<close>

datatype error =
    AttributeError
  | ZeroDivisionError
  | ValueError
  | IndexError
  | OSError
  | TooManyMissingFrames
  | AudioopError

text \<open>\<^verbatim>\<open>int(x)\<close>: truncation towards zero.\<close>

definition py_int :: "rat \<Rightarrow> int" where
  "py_int x = (if 0 \<le> x then \<lfloor>x\<rfloor> else \<lceil>x\<rceil>)"

text \<open>\<^verbatim>\<open>round(x)\<close>: to the nearest integer, a tie to the even one.\<close>

definition py_round :: "rat \<Rightarrow> int" where
  "py_round x =
     (let f = \<lfloor>x\<rfloor>; d = x - of_int f in
      if d < 1 / 2 then f
      else if 1 / 2 < d then f + 1
      else if even f then f else f + 1)"

text \<open>The exponent of a positive number: the \<open>e\<close> with
  \<open>2 powi e \<le> x < 2 powi (e + 1)\<close>, found from the bit lengths of numerator and
  denominator.\<close>

definition ilog2 :: "rat \<Rightarrow> int" where
  "ilog2 x =
     (case quotient_of x of
        (p, q) \<Rightarrow> let d = bitlen p - bitlen q in if 2 powi d \<le> x then d else d - 1)"

text \<open>Rounding to binary64: the magnitude is rounded to a multiple of the unit in the
  last of 53 places.\<close>

definition fl :: "rat \<Rightarrow> rat" where
  "fl x =
     (if x = 0 then 0
      else let u = 2 powi (ilog2 \<bar>x\<bar> - 52)
           in sgn x * of_int (py_round (\<bar>x\<bar> / u)) * u)"

text \<open>The four operations on floats. Division by zero raises in Python; the callers
  below test for it before they divide.\<close>

definition fadd :: "rat \<Rightarrow> rat \<Rightarrow> rat" where
  "fadd a b = fl (a + b)"

definition fsub :: "rat \<Rightarrow> rat \<Rightarrow> rat" where
  "fsub a b = fl (a - b)"

definition fmul :: "rat \<Rightarrow> rat \<Rightarrow> rat" where
  "fmul a b = fl (a * b)"

definition fdiv :: "rat \<Rightarrow> rat \<Rightarrow> rat" where
  "fdiv a b = fl (a / b)"

text \<open>An integer that meets a float in an operation is converted to a float first.\<close>

definition py_float :: "int \<Rightarrow> rat" where
  "py_float n = fl (of_int n)"

text \<open>\<^verbatim>\<open>xs[i:j]\<close> on a sequence: a negative index counts from the end, and both
  indices are cut to the sequence.\<close>

definition py_slice :: "'a list \<Rightarrow> int \<Rightarrow> int \<Rightarrow> 'a list" where
  "py_slice xs i j =
     (let n = int (length xs);
          lo = (if i < 0 then max 0 (i + n) else min i n);
          hi = (if j < 0 then max 0 (j + n) else min j n)
      in take (nat (hi - lo)) (drop (nat lo) xs))"

section \<open>The audio library: \<^verbatim>\<open>pydub.AudioSegment\<close>\<close>

text \<open>
  An \<^verbatim>\<open>AudioSegment\<close> is raw sample data with its format. A frame holds one sample
  for each channel; the data is the list of frames. The frame rate is an integer because
  \<^verbatim>\<open>_spawn\<close> stores whatever override it is given, also zero or a negative number.
\<close>

type_synonym frame = "int list"

record AudioSegment =
  channels :: nat
  sample_width :: nat
  frame_rate :: int
  frames :: "frame list"

text \<open>
  What the compiled code behind the two libraries does is a parameter of the embedding.
  The sample conversions of the C module \<^verbatim>\<open>audioop\<close> behind pydub:
  \<open>ratecv data width nchannels inrate outrate\<close> resamples,
  \<open>tochannels data width n m\<close> turns \<open>n\<close>-channel data into \<open>m\<close>-channel data and
  \<open>lin2lin data width width'\<close> changes the sample width. The encoder and the reader of
  \<^verbatim>\<open>ffmpeg\<close>: \<open>mp3_readable a\<close> tells whether the MP3 file that
  \<^verbatim>\<open>export\<close> writes for the segment \<open>a\<close> can be opened as an audio clip.
\<close>

record libraries =
  ratecv :: "frame list \<Rightarrow> nat \<Rightarrow> nat \<Rightarrow> int \<Rightarrow> int \<Rightarrow> frame list"
  tochannels :: "frame list \<Rightarrow> nat \<Rightarrow> nat \<Rightarrow> nat \<Rightarrow> frame list"
  lin2lin :: "frame list \<Rightarrow> nat \<Rightarrow> nat \<Rightarrow> frame list"
  mp3_readable :: "AudioSegment \<Rightarrow> bool"

text \<open>\<^verbatim>\<open>frame_count(ms)\<close>: \<^verbatim>\<open>ms * (self.frame_rate / 1000.0)\<close>.\<close>

definition frame_count_ms :: "AudioSegment \<Rightarrow> rat \<Rightarrow> rat" where
  "frame_count_ms a ms = fmul ms (fdiv (py_float (frame_rate a)) 1000)"

text \<open>\<^verbatim>\<open>len(a)\<close>, the length in milliseconds:
  \<^verbatim>\<open>round(1000 * (self.frame_count() / self.frame_rate))\<close>, where
  \<^verbatim>\<open>frame_count()\<close> is the number of frames as a float. The division raises at
  frame rate zero, and \<^verbatim>\<open>len\<close> refuses a negative result.\<close>

definition audio_len :: "AudioSegment \<Rightarrow> error + int" where
  "audio_len a =
     (if frame_rate a = 0 then Inl ZeroDivisionError
      else let r = py_round (fmul 1000 (fdiv (py_float (int (length (frames a))))
                                             (py_float (frame_rate a))))
           in if r < 0 then Inl ValueError else Inr r)"

text \<open>\<^verbatim>\<open>min(val, len(self))\<close> for a float \<open>val\<close> and the length \<open>n\<close>: the
  comparison is exact, and the result is used as a float.\<close>

definition min_len :: "rat \<Rightarrow> int \<Rightarrow> rat" where
  "min_len val n = (if of_int n < val then py_float n else val)"

text \<open>\<^verbatim>\<open>_parse_position(val)\<close>: a negative position counts from the end; the result
  is a frame index.\<close>

definition parse_position :: "AudioSegment \<Rightarrow> rat \<Rightarrow> error + int" where
  "parse_position a val =
     (if val < 0 then
        (case audio_len a of
           Inl e \<Rightarrow> Inl e
         | Inr n \<Rightarrow> Inr (py_int (frame_count_ms a (fsub (py_float n) \<bar>val\<bar>))))
      else Inr (py_int (frame_count_ms a val)))"

text \<open>\<^verbatim>\<open>_spawn(data)\<close>: new data, same format.\<close>

definition spawn :: "AudioSegment \<Rightarrow> frame list \<Rightarrow> AudioSegment" where
  "spawn a data = a\<lparr>frames := data\<rparr>"

text \<open>
  \<^verbatim>\<open>a[start:end]\<close> with both bounds given, in milliseconds. The bounds are cut to
  \<^verbatim>\<open>len(a)\<close>, turned into frame indices, and the data is sliced. Where the slice
  is shorter than the indices ask for, it is filled with copies of its first frame
  multiplied by zero, unless more than two milliseconds are missing.
\<close>

definition getitem :: "AudioSegment \<Rightarrow> rat \<Rightarrow> rat \<Rightarrow> error + AudioSegment" where
  "getitem a start stop =
     (case audio_len a of
        Inl e \<Rightarrow> Inl e
      | Inr n \<Rightarrow>
          (case parse_position a (min_len start n) of
             Inl e \<Rightarrow> Inl e
           | Inr s \<Rightarrow>
               (case parse_position a (min_len stop n) of
                  Inl e \<Rightarrow> Inl e
                | Inr t \<Rightarrow>
                    (let data = py_slice (frames a) s t;
                         missing_frames = (t - s) - int (length data)
                     in if missing_frames \<noteq> 0 then
                          if frame_count_ms a 2 < of_int missing_frames
                          then Inl TooManyMissingFrames
                          else Inr (spawn a (data @ concat (replicate (nat missing_frames)
                                      (map (map (\<lambda>x. 0)) (take 1 data)))))
                        else Inr (spawn a data)))))"

text \<open>\<^verbatim>\<open>AudioSegment.silent(duration)\<close> with the default frame rate 11025: one
  channel, two bytes a sample, \<^verbatim>\<open>int(frame_rate * (duration / 1000.0))\<close> zero
  frames.\<close>

definition silent :: "int \<Rightarrow> AudioSegment" where
  "silent duration =
     \<lparr>channels = 1, sample_width = 2, frame_rate = 11025,
      frames = replicate (nat (py_int (fmul (py_float 11025)
                                         (fdiv (py_float duration) 1000)))) [0]\<rparr>"

text \<open>\<^verbatim>\<open>set_channels\<close>: nothing to do for the same channel count; otherwise only
  conversions from or to mono exist.\<close>

definition set_channels :: "libraries \<Rightarrow> AudioSegment \<Rightarrow> nat \<Rightarrow> error + AudioSegment" where
  "set_channels lib a c =
     (if c = channels a then Inr a
      else if channels a = 1 \<or> c = 1
      then Inr (a\<lparr>channels := c,
                   frames := tochannels lib (frames a) (sample_width a) (channels a) c\<rparr>)
      else Inl ValueError)"

text \<open>\<^verbatim>\<open>set_frame_rate\<close>: nothing to do for the same rate; data that is not empty
  goes through \<^verbatim>\<open>audioop.ratecv\<close>, which raises unless both rates are positive;
  empty data is only relabelled.\<close>

definition set_frame_rate :: "libraries \<Rightarrow> AudioSegment \<Rightarrow> int \<Rightarrow> error + AudioSegment" where
  "set_frame_rate lib a r =
     (if r = frame_rate a then Inr a
      else if frames a \<noteq> [] then
        (if frame_rate a \<le> 0 \<or> r \<le> 0 then Inl AudioopError
         else Inr (a\<lparr>frame_rate := r,
                      frames := ratecv lib (frames a) (sample_width a) (channels a)
                                  (frame_rate a) r\<rparr>))
      else Inr (a\<lparr>frame_rate := r\<rparr>))"

text \<open>\<^verbatim>\<open>set_sample_width\<close>.\<close>

definition set_sample_width :: "libraries \<Rightarrow> AudioSegment \<Rightarrow> nat \<Rightarrow> AudioSegment" where
  "set_sample_width lib a w =
     (if w = sample_width a then a
      else a\<lparr>sample_width := w, frames := lin2lin lib (frames a) (sample_width a) w\<rparr>)"

text \<open>One segment of \<^verbatim>\<open>_sync\<close>:
  \<^verbatim>\<open>seg.set_channels(c).set_frame_rate(r).set_sample_width(w)\<close>.\<close>

definition convert :: "libraries \<Rightarrow> nat \<Rightarrow> int \<Rightarrow> nat \<Rightarrow> AudioSegment \<Rightarrow> error + AudioSegment" where
  "convert lib c r w a =
     (case set_channels lib a c of
        Inl e \<Rightarrow> Inl e
      | Inr a1 \<Rightarrow>
          (case set_frame_rate lib a1 r of
             Inl e \<Rightarrow> Inl e
           | Inr a2 \<Rightarrow> Inr (set_sample_width lib a2 w)))"

text \<open>\<^verbatim>\<open>a + b\<close> on two segments is \<^verbatim>\<open>a.append(b, crossfade=0)\<close>: both are
  brought to the larger channel count, frame rate and sample width
  (\<^verbatim>\<open>_sync\<close>), then the data is joined.\<close>

definition append_seg :: "libraries \<Rightarrow> AudioSegment \<Rightarrow> AudioSegment \<Rightarrow> error + AudioSegment" where
  "append_seg lib a b =
     (let c = max (channels a) (channels b);
          r = max (frame_rate a) (frame_rate b);
          w = max (sample_width a) (sample_width b)
      in case convert lib c r w a of
           Inl e \<Rightarrow> Inl e
         | Inr seg1 \<Rightarrow>
             (case convert lib c r w b of
                Inl e \<Rightarrow> Inl e
              | Inr seg2 \<Rightarrow> Inr (spawn seg1 (frames seg1 @ frames seg2))))"

text \<open>
  The builtin \<^verbatim>\<open>sum(xs)\<close> starts from the integer 0 and adds the elements from the
  left. \<^verbatim>\<open>0 + seg\<close> is \<^verbatim>\<open>seg.__radd__(0)\<close>, which returns \<^verbatim>\<open>seg\<close>. The
  value of \<^verbatim>\<open>sum\<close> is therefore the integer 0 or a segment.
\<close>

datatype sum_value = Zero | Seg AudioSegment

fun py_sum :: "libraries \<Rightarrow> sum_value \<Rightarrow> AudioSegment list \<Rightarrow> error + sum_value" where
  "py_sum lib acc [] = Inr acc"
| "py_sum lib Zero (x # xs) = py_sum lib (Seg x) xs"
| "py_sum lib (Seg a) (x # xs) =
     (case append_seg lib a x of
        Inl e \<Rightarrow> Inl e
      | Inr s \<Rightarrow> py_sum lib (Seg s) xs)"

text \<open>\<^verbatim>\<open>value.export(path, format)\<close>: the integer 0 has no such attribute. For a
  segment the result is the segment whose data is handed to the encoder.\<close>

definition export :: "sum_value \<Rightarrow> error + AudioSegment" where
  "export v = (case v of Zero \<Rightarrow> Inl AttributeError | Seg a \<Rightarrow> Inr a)"

section \<open>The video library: \<^verbatim>\<open>moviepy.editor\<close>\<close>

text \<open>A clip read from a file has a duration in seconds; its frames play no part here.
  The audio bound to a clip by \<^verbatim>\<open>set_audio\<close> is kept beside it.\<close>

record VideoClip =
  duration :: rat

text \<open>
  \<^verbatim>\<open>clip.subclip(t_start, t_end)\<close>: a negative time counts from the end of the
  clip; a start after the end of the clip raises \<^verbatim>\<open>ValueError\<close>; the new duration
  is \<^verbatim>\<open>t_end - t_start\<close>, and \<^verbatim>\<open>t_end\<close> is not compared with the duration.
\<close>

definition subclip :: "VideoClip \<Rightarrow> rat \<Rightarrow> rat \<Rightarrow> error + VideoClip" where
  "subclip clip t_start t_end =
     (let t_start1 = (if t_start < 0 then fadd (duration clip) t_start else t_start) in
      if duration clip < t_start1 then Inl ValueError
      else let t_end1 = (if t_end < 0 then fadd (duration clip) t_end else t_end)
           in Inr (clip\<lparr>duration := fsub t_end1 t_start1\<rparr>))"

text \<open>
  \<^verbatim>\<open>concatenate_videoclips(clips)\<close>: the start times \<^verbatim>\<open>tt\<close> are the running
  sums of the durations, added one after the other from 0, none below zero; the duration
  of the result is the last of them. The maximum over the sizes of no clips raises
  \<^verbatim>\<open>ValueError\<close>. The result is built by asking for its frame at time 0, which is
  taken from the clip at the last index \<open>i\<close> with \<^verbatim>\<open>tt[i] <= 0\<close>: when the last
  start time is 0 this is the index after the last clip, and \<^verbatim>\<open>IndexError\<close> is
  raised.
\<close>

definition concatenate_videoclips :: "VideoClip list \<Rightarrow> error + VideoClip" where
  "concatenate_videoclips clips =
     (if clips = [] then Inl ValueError
      else let tt_last = max 0 (foldl fadd 0 (map duration clips))
           in if tt_last \<le> 0 then Inl IndexError else Inr \<lparr>duration = tt_last\<rparr>)"

text \<open>
  \<^verbatim>\<open>AudioFileClip(path)\<close> on the file that \<^verbatim>\<open>export\<close> wrote for a segment.
  The file of a segment without frames holds no audio and cannot be opened; whether the
  file of another segment can be opened is for the encoder and the reader to say. The
  clip that is opened is embedded as the segment that was exported.
\<close>

definition AudioFileClip :: "libraries \<Rightarrow> AudioSegment \<Rightarrow> error + AudioSegment" where
  "AudioFileClip lib written =
     (if frames written \<noteq> [] \<and> mp3_readable lib written then Inr written else Inl OSError)"

section \<open>The reassembler: \<^verbatim>\<open>process_video_audio_sync\<close>\<close>

text \<open>A transcript segment is a dictionary with the keys \<^verbatim>\<open>word\<close>,
  \<^verbatim>\<open>start\<close> and \<^verbatim>\<open>end\<close> (seconds, as floats).\<close>

record segment =
  word :: string
  seg_start :: rat
  seg_end :: rat

definition filler_words :: "string list" where
  "filler_words = [''um'', ''uh'', ''hmm'', ''umm'']"

text \<open>The body of the first loop for one segment: the chunk between the two
  timestamps in milliseconds, replaced by silence of \<^verbatim>\<open>len(chunk)\<close> milliseconds when
  \<^verbatim>\<open>word in filler_words\<close>.\<close>

definition clean_chunk :: "AudioSegment \<Rightarrow> segment \<Rightarrow> error + AudioSegment" where
  "clean_chunk audio seg =
     (case getitem audio (fmul (seg_start seg) 1000) (fmul (seg_end seg) 1000) of
        Inl e \<Rightarrow> Inl e
      | Inr chunk \<Rightarrow>
          if word seg \<in> set filler_words then
            (case audio_len chunk of
               Inl e \<Rightarrow> Inl e
             | Inr n \<Rightarrow> Inr (silent n))
          else Inr chunk)"

text \<open>The first loop, with its two accumulators \<^verbatim>\<open>cleaned_audio_segments\<close> and
  \<^verbatim>\<open>cleaned_timestamps\<close>.\<close>

fun clean_loop ::
  "AudioSegment \<Rightarrow> segment list \<Rightarrow> AudioSegment list \<Rightarrow> (rat \<times> rat) list \<Rightarrow>
   error + (AudioSegment list \<times> (rat \<times> rat) list)" where
  "clean_loop audio [] cleaned_audio_segments cleaned_timestamps =
     Inr (cleaned_audio_segments, cleaned_timestamps)"
| "clean_loop audio (seg # segs) cleaned_audio_segments cleaned_timestamps =
     (case clean_chunk audio seg of
        Inl e \<Rightarrow> Inl e
      | Inr chunk \<Rightarrow>
          clean_loop audio segs (cleaned_audio_segments @ [chunk])
            (cleaned_timestamps @ [(seg_start seg, seg_end seg)]))"

text \<open>The second loop: one sub-clip for each recorded pair of timestamps.\<close>

fun subclip_loop ::
  "VideoClip \<Rightarrow> (rat \<times> rat) list \<Rightarrow> VideoClip list \<Rightarrow> error + VideoClip list" where
  "subclip_loop video_clip [] new_video_clips = Inr new_video_clips"
| "subclip_loop video_clip ((s, e) # ts) new_video_clips =
     (case subclip video_clip s e of
        Inl err \<Rightarrow> Inl err
      | Inr c \<Rightarrow> subclip_loop video_clip ts (new_video_clips @ [c]))"

text \<open>
  The whole function. \<open>audio\<close> is the segment that \<^verbatim>\<open>AudioSegment.from_file\<close>
  loads. The statements follow each other as in the source: the two loops with the sum
  and the export between them, the concatenation of the sub-clips, and the opening of the
  exported file. The result is the final clip with the audio bound to it by
  \<^verbatim>\<open>set_audio\<close>.
\<close>

definition process_video_audio_sync ::
  "libraries \<Rightarrow> VideoClip \<Rightarrow> AudioSegment \<Rightarrow> segment list \<Rightarrow>
   error + (VideoClip \<times> AudioSegment)" where
  "process_video_audio_sync lib video_clip audio segments =
     (case clean_loop audio segments [] [] of
        Inl e \<Rightarrow> Inl e
      | Inr (cleaned_audio_segments, cleaned_timestamps) \<Rightarrow>
          (case py_sum lib Zero cleaned_audio_segments of
             Inl e \<Rightarrow> Inl e
           | Inr cleaned_audio \<Rightarrow>
               (case export cleaned_audio of
                  Inl e \<Rightarrow> Inl e
                | Inr written \<Rightarrow>
                    (case subclip_loop video_clip cleaned_timestamps [] of
                       Inl e \<Rightarrow> Inl e
                     | Inr new_video_clips \<Rightarrow>
                         (case concatenate_videoclips new_video_clips of
                            Inl e \<Rightarrow> Inl e
                          | Inr final_video \<Rightarrow>
                              (case AudioFileClip lib written of
                                 Inl e \<Rightarrow> Inl e
                               | Inr final_audio \<Rightarrow> Inr (final_video, final_audio)))))))"

section \<open>The resynchronizer: \<^verbatim>\<open>adjust_audio_speed_pydub\<close>\<close>

text \<open>\<^verbatim>\<open>speed_factor = current_duration / (target_duration * 1000)\<close>: the product
  and the quotient are float operations; a division by zero raises.\<close>

definition speed_factor :: "int \<Rightarrow> rat \<Rightarrow> error + rat" where
  "speed_factor current_duration target_duration =
     (let d = fmul target_duration 1000 in
      if d = 0 then Inl ZeroDivisionError
      else Inr (fdiv (py_float current_duration) d))"

text \<open>
  The function: the data is relabelled with the frame rate
  \<^verbatim>\<open>int(audio.frame_rate * speed_factor)\<close> and then set back to the frame rate of
  the input. The result is the segment that is exported.
\<close>

definition adjust_audio_speed_pydub ::
  "libraries \<Rightarrow> AudioSegment \<Rightarrow> rat \<Rightarrow> error + AudioSegment" where
  "adjust_audio_speed_pydub lib audio target_duration =
     (case audio_len audio of
        Inl e \<Rightarrow> Inl e
      | Inr current_duration \<Rightarrow>
          (case speed_factor current_duration target_duration of
             Inl e \<Rightarrow> Inl e
           | Inr f \<Rightarrow>
               set_frame_rate lib
                 (audio\<lparr>frame_rate := py_int (fmul (py_float (frame_rate audio)) f)\<rparr>)
                 (frame_rate audio)))"

section \<open>The pipeline run and its files\<close>

text \<open>
  The script at module level runs once for an uploaded file. What the external services
  answer is given beforehand: the clip and its audio track (none when the upload has no
  audio), the transcription, the corrected text, the synthesized speech, whether the
  final file can be put together and written, and which deletions fail.
\<close>

text \<open>The answer of \<^verbatim>\<open>transcribe_audio\<close>: nothing (it has shown its error itself);
  an answer that cannot be parsed or lacks the word list, so that reading it raises
  inside the \<^verbatim>\<open>try\<close>; an answer without the keys \<^verbatim>\<open>results\<close> and
  \<^verbatim>\<open>channels\<close>, for which nothing is done; or the word list.\<close>

datatype transcription =
    NoTranscription
  | BadTranscription
  | NoResults
  | Words "segment list"

text \<open>The answer of \<^verbatim>\<open>correct_transcription\<close>: an exception of the request; nothing
  (it has shown its error itself); the empty text, which the script treats like nothing;
  or the corrected text.\<close>

datatype correction =
    CorrectionRaises
  | NoCorrection
  | EmptyCorrection
  | Corrected string

record services =
  libs :: libraries
  video_clip :: VideoClip
  extracted_audio :: "AudioSegment option"
  transcription :: transcription
  correction :: correction
  speech :: "AudioSegment option"
  video_written :: bool
  remove_fails :: "string \<Rightarrow> bool"

datatype report = TranscriptionFailed | CorrectionFailed | SpeechFailed
  | ProcessingError | CleanupError

text \<open>The state of a run: the files on disk, the errors shown with
  \<^verbatim>\<open>st.error\<close>, the video shown with \<^verbatim>\<open>st.video\<close>, and the exception that
  ended the script, if one did.\<close>

record run_state =
  files :: "string set"
  reports :: "report list"
  shown :: "string option"
  uncaught :: "error option"

definition temp_video_path :: string where
  "temp_video_path = ''temp_uploaded_video.mp4''"

definition temp_audio_path :: string where
  "temp_audio_path = ''extracted_audio.mp3''"

definition cleaned_audio_path :: string where
  "cleaned_audio_path = ''cleaned_audio.mp3''"

definition ai_audio_path :: string where
  "ai_audio_path = ''output_audio.wav''"

definition adjusted_ai_audio_path :: string where
  "adjusted_ai_audio_path = ''adjusted_ai_audio_pydub.wav''"

definition final_video_path :: string where
  "final_video_path = ''final_output_video.mp4''"

text \<open>\<^verbatim>\<open>process_video_audio_sync\<close> writes the cleaned audio in the middle of its
  body: the file exists as soon as the sum of the chunks is a segment, whatever the
  video part does afterwards.\<close>

definition cleaned_audio_written :: "libraries \<Rightarrow> AudioSegment \<Rightarrow> segment list \<Rightarrow> bool" where
  "cleaned_audio_written l audio segments =
     (case clean_loop audio segments [] [] of
        Inl e \<Rightarrow> False
      | Inr (cleaned_audio_segments, cleaned_timestamps) \<Rightarrow>
          (case py_sum l Zero cleaned_audio_segments of
             Inl e \<Rightarrow> False
           | Inr Zero \<Rightarrow> False
           | Inr (Seg a) \<Rightarrow> True))"

text \<open>The body of the \<^verbatim>\<open>try\<close> statement, entered with a transcription; \<open>audio\<close>
  is the content of the extracted audio file. The first component tells whether an
  exception left the body.\<close>

definition try_body :: "services \<Rightarrow> AudioSegment \<Rightarrow> run_state \<Rightarrow> bool \<times> run_state" where
  "try_body sv audio st =
     (case transcription sv of
        NoTranscription \<Rightarrow> (False, st)
      | BadTranscription \<Rightarrow> (True, st)
      | NoResults \<Rightarrow> (False, st)
      | Words segments \<Rightarrow>
          (case correction sv of
             CorrectionRaises \<Rightarrow> (True, st)
           | NoCorrection \<Rightarrow> (False, st\<lparr>reports := reports st @ [CorrectionFailed]\<rparr>)
           | EmptyCorrection \<Rightarrow> (False, st)
           | Corrected corrected_transcript \<Rightarrow>
               (let st1 = (if cleaned_audio_written (libs sv) audio segments
                           then st\<lparr>files := insert cleaned_audio_path (files st)\<rparr>
                           else st)
                in case process_video_audio_sync (libs sv) (video_clip sv)
                          audio segments of
                     Inl e \<Rightarrow> (True, st1)
                   | Inr (synced_video, cleaned_audio) \<Rightarrow>
                       (case speech sv of
                          None \<Rightarrow> (False, st1\<lparr>reports := reports st1 @ [SpeechFailed]\<rparr>)
                        | Some ai_audio \<Rightarrow>
                            (let st2 = st1\<lparr>files := insert ai_audio_path (files st1)\<rparr>
                             in case adjust_audio_speed_pydub (libs sv) ai_audio
                                       (duration synced_video) of
                                  Inl e \<Rightarrow> (True, st2)
                                | Inr adjusted \<Rightarrow>
                                    (let st3 = st2\<lparr>files :=
                                           insert adjusted_ai_audio_path (files st2)\<rparr>
                                     in if video_written sv
                                        then (False,
                                              st3\<lparr>files := insert final_video_path (files st3),
                                                  shown := Some final_video_path\<rparr>)
                                        else (True, st3)))))))"

text \<open>The cleanup block: two deletions in one \<^verbatim>\<open>try\<close>; the first one that
  fails is reported and ends the block.\<close>

definition cleanup :: "services \<Rightarrow> run_state \<Rightarrow> run_state" where
  "cleanup sv st =
     (if remove_fails sv temp_audio_path
      then st\<lparr>reports := reports st @ [CleanupError]\<rparr>
      else let st1 = st\<lparr>files := files st - {temp_audio_path}\<rparr>
           in if remove_fails sv temp_video_path
              then st1\<lparr>reports := reports st1 @ [CleanupError]\<rparr>
              else st1\<lparr>files := files st1 - {temp_video_path}\<rparr>)"

text \<open>
  The run for an uploaded file. The upload is written to disk. Writing the audio of a
  clip without an audio track raises \<^verbatim>\<open>AttributeError\<close> outside any
  \<^verbatim>\<open>try\<close>, which ends the script. Otherwise the extracted audio is written, the
  transcription is processed, an exception from the processing is reported, and the
  cleanup block follows.
\<close>

definition pipeline :: "services \<Rightarrow> run_state \<Rightarrow> run_state" where
  "pipeline sv st =
     (let st0 = st\<lparr>files := insert temp_video_path (files st)\<rparr> in
      case extracted_audio sv of
        None \<Rightarrow> st0\<lparr>uncaught := Some AttributeError\<rparr>
      | Some audio \<Rightarrow>
          (let st1 = st0\<lparr>files := insert temp_audio_path (files st0)\<rparr>;
               st2 = (case transcription sv of
                        NoTranscription \<Rightarrow>
                          st1\<lparr>reports := reports st1 @ [TranscriptionFailed]\<rparr>
                      | _ \<Rightarrow>
                          (case try_body sv audio st1 of
                             (True, s) \<Rightarrow> s\<lparr>reports := reports s @ [ProcessingError]\<rparr>
                           | (False, s) \<Rightarrow> s))
           in cleanup sv st2))"

section \<open>Notions used in the statements\<close>

text \<open>The bound of the relative error of one rounding.\<close>

definition unit_roundoff :: rat where
  "unit_roundoff = 1 / 2 ^ 53"

text \<open>The span of a segment as the sub-clip computes it, and the sum of a list of
  floats added one after the other from 0.\<close>

definition span :: "segment \<Rightarrow> rat" where
  "span s = fsub (seg_end s) (seg_start s)"

definition float_sum :: "rat list \<Rightarrow> rat" where
  "float_sum xs = foldl fadd 0 xs"

text \<open>A transcript is contiguous when every segment starts where the one before it
  ends.\<close>

fun contiguous :: "segment list \<Rightarrow> bool" where
  "contiguous [] = True"
| "contiguous [s] = True"
| "contiguous (s # s' # rest) = (seg_end s = seg_start s' \<and> contiguous (s' # rest))"

text \<open>The frame index that the track gives to a time in seconds, and the frames of the
  track between the frame indices of the two timestamps of a segment.\<close>

definition frame_pos :: "AudioSegment \<Rightarrow> rat \<Rightarrow> int" where
  "frame_pos audio t = py_int (frame_count_ms audio (fmul t 1000))"

definition source_block :: "AudioSegment \<Rightarrow> segment \<Rightarrow> frame list" where
  "source_block audio seg =
     take (nat (frame_pos audio (seg_end seg) - frame_pos audio (seg_start seg)))
       (drop (nat (frame_pos audio (seg_start seg))) (frames audio))"

text \<open>A segment lies in the data of the track when its timestamps are in order, its end
  is not after the length of the track in milliseconds, and the frame index of its end
  is not after the last frame.\<close>

definition in_data :: "AudioSegment \<Rightarrow> segment \<Rightarrow> bool" where
  "in_data audio seg =
     (0 \<le> seg_start seg \<and> seg_start seg \<le> seg_end seg \<and>
      (case audio_len audio of
         Inl e \<Rightarrow> False
       | Inr n \<Rightarrow> fmul (seg_end seg) 1000 \<le> of_int n) \<and>
      frame_pos audio (seg_end seg) \<le> int (length (frames audio)))"

text \<open>Data is silence when every sample of every frame is zero. The conversions keep
  silence when they turn silence into silence.\<close>

definition is_silence :: "frame list \<Rightarrow> bool" where
  "is_silence d = (\<forall>f\<in>set d. \<forall>x\<in>set f. x = 0)"

definition keeps_silence :: "libraries \<Rightarrow> bool" where
  "keeps_silence l =
     (\<forall>d w n m i r v. is_silence d \<longrightarrow>
        is_silence (ratecv l d w n i r) \<and> is_silence (tochannels l d w n m) \<and>
        is_silence (lin2lin l d w v))"

text \<open>No chunk needs a conversion, as every chunk has the format of the track: no word
  is a filler word, or the track has the format of generated silence.\<close>

definition no_conversion :: "AudioSegment \<Rightarrow> segment list \<Rightarrow> bool" where
  "no_conversion audio segs =
     ((\<forall>s\<in>set segs. word s \<notin> set filler_words) \<or>
      (channels audio = 1 \<and> sample_width audio = 2 \<and> frame_rate audio = 11025))"

text \<open>The data of a chunk after it is brought to the format of the track.\<close>

definition to_format :: "libraries \<Rightarrow> AudioSegment \<Rightarrow> AudioSegment \<Rightarrow> frame list" where
  "to_format lib audio c =
     (case convert lib (channels audio) (frame_rate audio) (sample_width audio) c of
        Inl e \<Rightarrow> []
      | Inr s \<Rightarrow> frames s)"

text \<open>
  The data that the sum of the chunks holds, for a track that has at least the format
  of generated silence. The chunks of the filler words before the first other word are
  joined as they are; when another word follows, what they have become is brought to
  the format of the track in one piece. From there on every chunk adds one block: a
  chunk of silence is brought to the format of the track, any other chunk is added as
  it is.
\<close>

definition lead_count :: "segment list \<Rightarrow> nat" where
  "lead_count segs = length (takeWhile (\<lambda>s. word s \<in> set filler_words) segs)"

definition block :: "libraries \<Rightarrow> AudioSegment \<Rightarrow> segment \<times> AudioSegment \<Rightarrow> frame list" where
  "block lib audio p =
     (if word (fst p) \<in> set filler_words then to_format lib audio (snd p) else frames (snd p))"

definition joined ::
  "libraries \<Rightarrow> AudioSegment \<Rightarrow> segment list \<Rightarrow> AudioSegment list \<Rightarrow> frame list" where
  "joined lib audio segs cs =
     (let k = lead_count segs;
          quiet = concat (map frames (take k cs));
          rest = drop k (zip segs cs)
      in if rest = [] then quiet
         else (if k = 0 then []
               else to_format lib audio
                      \<lparr>channels = 1, sample_width = 2, frame_rate = 11025, frames = quiet\<rparr>)
              @ concat (map (block lib audio) rest))"

section \<open>Inputs for evaluation\<close>

text \<open>Conversions that leave the data as it is stand for the sample conversions where a
  function is evaluated on an input that needs none. The MP3 file of a segment is taken
  to be readable when the frame rate of the segment is one of the rates of MPEG audio.\<close>

definition plain_libraries :: libraries where
  "plain_libraries =
     \<lparr>ratecv = (\<lambda>d w c i r. d), tochannels = (\<lambda>d w n m. d), lin2lin = (\<lambda>d w v. d),
      mp3_readable = (\<lambda>a. frame_rate a \<in>
         {8000, 11025, 12000, 16000, 22050, 24000, 32000, 44100, 48000})\<rparr>"

text \<open>A mono track of three seconds at four frames a second, and a clip of three
  seconds.\<close>

definition track3 :: AudioSegment where
  "track3 =
     \<lparr>channels = 1, sample_width = 2, frame_rate = 4,
      frames = [[1], [2], [3], [4], [5], [6], [7], [8], [9], [10], [11], [12]]\<rparr>"

definition clip3 :: VideoClip where
  "clip3 = \<lparr>duration = 3\<rparr>"

text \<open>Two single-word transcripts with the same word at different times.\<close>

definition um_early :: "segment list" where
  "um_early = [\<lparr>word = ''um'', seg_start = 0, seg_end = 1\<rparr>]"

definition um_late :: "segment list" where
  "um_late = [\<lparr>word = ''um'', seg_start = 1, seg_end = 3\<rparr>]"

text \<open>A transcript over the three seconds with a word that starts after the track.\<close>

definition beyond :: "segment list" where
  "beyond = [\<lparr>word = ''hello'', seg_start = 0, seg_end = 1\<rparr>,
             \<lparr>word = ''world'', seg_start = 5, seg_end = 6\<rparr>]"

text \<open>Data whose samples rise from 1 to 32000 and start again. A mono track
  of one second at 11025 frames a second, 16 bits a sample; the same track five frames
  short of the second; a mono track of one second at 8000 frames a second; and a clip of
  one second.\<close>

definition ramp :: "nat \<Rightarrow> nat \<Rightarrow> frame list" where
  "ramp i j = map (\<lambda>k. [int (k mod 32000) + 1]) [i..<j]"

definition voice :: AudioSegment where
  "voice = \<lparr>channels = 1, sample_width = 2, frame_rate = 11025, frames = ramp 0 11025\<rparr>"

definition voice_short :: AudioSegment where
  "voice_short = \<lparr>channels = 1, sample_width = 2, frame_rate = 11025, frames = ramp 0 11020\<rparr>"

definition phone :: AudioSegment where
  "phone = \<lparr>channels = 1, sample_width = 2, frame_rate = 8000, frames = ramp 0 8000\<rparr>"

definition clip1 :: VideoClip where
  "clip1 = \<lparr>duration = 1\<rparr>"

text \<open>Transcripts over the second: a filler word and two words that follow each other;
  two words with a pause between them; a last word that ends after the track; two words
  that follow each other at the floats nearest to 0.2 and 0.9; a filler word between the
  floats nearest to 0.1 and 0.2; one word in the third quarter; one word over the second
  half.\<close>

definition talk :: "segment list" where
  "talk = [\<lparr>word = ''um'', seg_start = 0, seg_end = 1 / 4\<rparr>,
           \<lparr>word = ''hello'', seg_start = 1 / 4, seg_end = 1 / 2\<rparr>,
           \<lparr>word = ''world'', seg_start = 1 / 2, seg_end = 1\<rparr>]"

definition paused :: "segment list" where
  "paused = [\<lparr>word = ''hello'', seg_start = 0, seg_end = 1 / 4\<rparr>,
             \<lparr>word = ''world'', seg_start = 1 / 2, seg_end = 3 / 4\<rparr>]"

definition overlong :: "segment list" where
  "overlong = [\<lparr>word = ''hello'', seg_start = 0, seg_end = 1 / 2\<rparr>,
               \<lparr>word = ''world'', seg_start = 1 / 2, seg_end = 2\<rparr>]"

definition tenths :: "segment list" where
  "tenths = [\<lparr>word = ''so'', seg_start = 0, seg_end = fl (2 / 10)\<rparr>,
             \<lparr>word = ''it'', seg_start = fl (2 / 10), seg_end = fl (9 / 10)\<rparr>]"

definition hum :: segment where
  "hum = \<lparr>word = ''um'', seg_start = fl (1 / 10), seg_end = fl (2 / 10)\<rparr>"

definition late_word :: "segment list" where
  "late_word = [\<lparr>word = ''hello'', seg_start = 1 / 2, seg_end = 3 / 4\<rparr>]"

definition tail_word :: "segment list" where
  "tail_word = [\<lparr>word = ''hello'', seg_start = 1 / 2, seg_end = 1\<rparr>]"

text \<open>A zero-length segment in the middle of the second, a transcript of a word and the
  zero-length segment, and a transcript of a word and a zero-length segment after the
  end of the clip.\<close>

definition mark :: segment where
  "mark = \<lparr>word = [], seg_start = 1 / 2, seg_end = 1 / 2\<rparr>"

definition word_mark :: "segment list" where
  "word_mark = [\<lparr>word = ''hello'', seg_start = 1 / 4, seg_end = 1 / 2\<rparr>, mark]"

definition empty_beyond :: "segment list" where
  "empty_beyond = [\<lparr>word = ''hello'', seg_start = 0, seg_end = 1 / 4\<rparr>,
                   \<lparr>word = [], seg_start = 5, seg_end = 5\<rparr>]"

text \<open>Synthesized speech at 24000 frames a second: one second of it, 2043 milliseconds
  of it, and speech without a single frame.\<close>

definition speech1 :: AudioSegment where
  "speech1 = \<lparr>channels = 1, sample_width = 2, frame_rate = 24000, frames = ramp 0 24000\<rparr>"

definition speech2043 :: AudioSegment where
  "speech2043 =
     \<lparr>channels = 1, sample_width = 2, frame_rate = 24000, frames = ramp 0 49032\<rparr>"

definition empty_speech :: AudioSegment where
  "empty_speech = \<lparr>channels = 1, sample_width = 2, frame_rate = 24000, frames = []\<rparr>"

text \<open>A run in which every service answers and nothing fails, started on an empty
  disk.\<close>

definition all_fine :: services where
  "all_fine =
     \<lparr>libs = plain_libraries, video_clip = clip1, extracted_audio = Some voice,
      transcription = Words talk, correction = Corrected ''hello world'',
      speech = Some speech1, video_written = True, remove_fails = (\<lambda>p. False)\<rparr>"

definition fresh :: run_state where
  "fresh = \<lparr>files = {}, reports = [], shown = None, uncaught = None\<rparr>"

section \<open>Rounding\<close>

lemma py_int_nonneg: "0 \<le> x \<Longrightarrow> py_int x = \<lfloor>x\<rfloor>"
  by (simp add: py_int_def)

lemma py_int_nonpos: "x \<le> 0 \<Longrightarrow> py_int x \<le> 0"
  by (auto simp: py_int_def ceiling_le_iff)

lemma py_int_ge0: "0 \<le> x \<Longrightarrow> 0 \<le> py_int x"
  by (simp add: py_int_def)

lemma py_int_le: "0 \<le> x \<Longrightarrow> of_int (py_int x) \<le> x"
  by (simp add: py_int_def)

lemma py_int_of_int: "py_int (of_int k) = k"
  by (simp add: py_int_def)

lemma py_round_upper: "of_int (py_round x) \<le> x + 1 / 2"
  unfolding py_round_def Let_def by (auto; linarith)

lemma py_round_lower: "x - 1 / 2 \<le> of_int (py_round x)"
  unfolding py_round_def Let_def by (auto; linarith)

lemma py_round_nonneg: "0 \<le> x \<Longrightarrow> 0 \<le> py_round x"
  unfolding py_round_def Let_def by (auto; linarith)

lemma py_round_of_int: "py_round (of_int n) = n"
  by (simp add: py_round_def)

lemma py_round_zero: "py_round 0 = 0"
  by (simp add: py_round_def)

lemma py_round_eqI:
  assumes "of_int n - 1 / 2 < x" and "x < of_int n + 1 / 2"
  shows "py_round x = n"
proof -
  have "of_int (py_round x) \<le> x + 1 / 2" by (rule py_round_upper)
  moreover have "x - 1 / 2 \<le> of_int (py_round x)" by (rule py_round_lower)
  ultimately have "(of_int (py_round x) :: rat) < of_int n + 1"
    and "(of_int n :: rat) - 1 < of_int (py_round x)"
    using assms by linarith+
  then have "py_round x < n + 1" and "n - 1 < py_round x"
    by (metis of_int_less_iff of_int_add of_int_1,
        metis of_int_less_iff of_int_diff of_int_1)
  then show ?thesis by linarith
qed

section \<open>Floats\<close>

lemma powi2_add: "(2::rat) powi (a + b) = 2 powi a * 2 powi b"
  by (simp add: power_int_add)

lemma powi2_diff: "(2::rat) powi (a - b) = 2 powi a / 2 powi b"
  by (simp add: power_int_diff)

lemma bitlen_powi:
  assumes "0 < p"
  shows "(2::rat) powi (bitlen p - 1) \<le> of_int p" and "of_int p < (2::rat) powi (bitlen p)"
proof -
  from bitlen_bounds [OF assms] have a: "2 ^ nat (bitlen p - 1) \<le> p" and b: "p < 2 ^ nat (bitlen p)"
    by auto
  have b1: "1 \<le> bitlen p" using assms by (auto simp: bitlen_alt_def)
  have "(2::rat) powi (bitlen p - 1) = 2 ^ nat (bitlen p - 1)"
    using b1 by (simp add: power_int_def)
  also have "\<dots> = of_int (2 ^ nat (bitlen p - 1))" by simp
  also have "\<dots> \<le> of_int p" using a by (simp only: of_int_le_iff)
  finally show "(2::rat) powi (bitlen p - 1) \<le> of_int p" .
  have "(of_int p :: rat) < of_int (2 ^ nat (bitlen p))" using b by (simp only: of_int_less_iff)
  also have "\<dots> = 2 ^ nat (bitlen p)" by simp
  also have "\<dots> = (2::rat) powi (bitlen p)" using b1 by (simp add: power_int_def)
  finally show "of_int p < (2::rat) powi (bitlen p)" .
qed

lemma ilog2_bounds:
  assumes "0 < x"
  shows "2 powi (ilog2 x) \<le> x" and "x < 2 powi (ilog2 x + 1)"
proof -
  obtain p q where pq: "quotient_of x = (p, q)" by (cases "quotient_of x")
  have q: "0 < q" using pq by (rule quotient_of_denom_pos)
  have x: "x = of_int p / of_int q" using pq by (rule quotient_of_div)
  have p: "0 < p" using assms q x by (simp add: zero_less_divide_iff)
  let ?d = "bitlen p - bitlen q"
  note P = bitlen_powi [OF p] and Q = bitlen_powi [OF q]
  have qr: "(0::rat) < of_int q" using q by simp
  have low: "2 powi (?d - 1) \<le> x"
  proof -
    have "?d - 1 = (bitlen p - 1) - bitlen q" by simp
    then have "(2::rat) powi (?d - 1) = 2 powi (bitlen p - 1) / 2 powi (bitlen q)"
      by (simp only: powi2_diff)
    also have "\<dots> \<le> of_int p / of_int q"
      using P(1) Q(2) qr p by (intro frac_le) simp_all
    finally show ?thesis using x by simp
  qed
  have up: "x < 2 powi (?d + 1)"
  proof -
    have "x = of_int p / of_int q" by (rule x)
    also have "\<dots> < 2 powi (bitlen p) / 2 powi (bitlen q - 1)"
      using P(2) Q(1) p by (intro frac_less) simp_all
    also have "\<dots> = 2 powi (bitlen p - (bitlen q - 1))"
      by (simp only: powi2_diff)
    also have "bitlen p - (bitlen q - 1) = ?d + 1" by simp
    finally show ?thesis .
  qed
  have il: "ilog2 x = (if 2 powi ?d \<le> x then ?d else ?d - 1)"
    by (simp add: ilog2_def pq Let_def)
  show "2 powi (ilog2 x) \<le> x" using low by (simp add: il)
  show "x < 2 powi (ilog2 x + 1)" using up by (auto simp: il not_le)
qed

lemma powi_less_imp_less:
  assumes "(2::rat) powi a < 2 powi b"
  shows "a < b"
proof (rule ccontr)
  assume "\<not> a < b"
  then have "b \<le> a" by simp
  then have "(2::rat) powi b \<le> 2 powi a" by (intro power_int_increasing) simp_all
  with assms show False by simp
qed

lemma fl_minus: "fl (- x) = - fl x"
  by (simp add: fl_def Let_def)

lemma fl_zero: "fl 0 = 0"
  by (simp add: fl_def)

text \<open>The rounded significand of a positive number lies between \<open>2 ^ 52\<close> and
  \<open>2 ^ 53\<close>, half a unit from the exact one at most.\<close>

lemma fl_significand:
  assumes "0 < x"
  defines "u \<equiv> (2::rat) powi (ilog2 x - 52)"
  defines "m \<equiv> py_round (x / u)"
  shows "fl x = of_int m * u" and "2 ^ 52 \<le> m" and "m \<le> 2 ^ 53" and "0 < u"
    and "\<bar>of_int m - x / u\<bar> \<le> 1 / 2" and "u * 2 ^ 52 \<le> x"
proof -
  show u: "0 < u" by (simp add: u_def)
  show "fl x = of_int m * u" using assms(1) by (simp add: fl_def Let_def u_def m_def)
  have e: "(2::rat) powi (ilog2 x) = u * 2 ^ 52"
  proof -
    have "ilog2 x = (ilog2 x - 52) + 52" by simp
    then have "(2::rat) powi (ilog2 x) = 2 powi ((ilog2 x - 52) + 52)" by (rule arg_cong)
    also have "\<dots> = u * 2 powi 52" unfolding u_def by (simp only: powi2_add)
    finally show ?thesis by simp
  qed
  have e1: "(2::rat) powi (ilog2 x + 1) = u * 2 ^ 53"
  proof -
    have "ilog2 x + 1 = (ilog2 x - 52) + 53" by simp
    then have "(2::rat) powi (ilog2 x + 1) = 2 powi ((ilog2 x - 52) + 53)" by (rule arg_cong)
    also have "\<dots> = u * 2 powi 53" unfolding u_def by (simp only: powi2_add)
    finally show ?thesis by simp
  qed
  show x52: "u * 2 ^ 52 \<le> x" using ilog2_bounds(1) [OF assms(1)] e by simp
  have x53: "x < u * 2 ^ 53" using ilog2_bounds(2) [OF assms(1)] e1 by simp
  define r where "r = x / u"
  have lo: "(2::rat) ^ 52 \<le> r" using x52 u by (simp add: r_def pos_le_divide_eq mult.commute)
  have hi: "r < (2::rat) ^ 53" using x53 u by (simp add: r_def pos_divide_less_eq mult.commute)
  have m: "m = py_round r" by (simp add: m_def r_def)
  have "(of_int (2 ^ 52) :: rat) - 1 / 2 \<le> r - 1 / 2" using lo by simp
  also have "\<dots> \<le> of_int (py_round r)" by (rule py_round_lower)
  finally have "(of_int (2 ^ 52 - 1) :: rat) < of_int (py_round r)" by simp
  then have "2 ^ 52 - 1 < py_round r" by (simp only: of_int_less_iff)
  then show "2 ^ 52 \<le> m" unfolding m by simp
  have "(of_int (py_round r) :: rat) \<le> r + 1 / 2" by (rule py_round_upper)
  also have "\<dots> < of_int (2 ^ 53 + 1)" using hi by simp
  finally have "py_round r < 2 ^ 53 + 1" by (simp only: of_int_less_iff)
  then show "m \<le> 2 ^ 53" unfolding m by simp
  have "of_int (py_round r) \<le> r + 1 / 2" and "r - 1 / 2 \<le> of_int (py_round r)"
    by (rule py_round_upper, rule py_round_lower)
  then have "\<bar>of_int (py_round r) - r\<bar> \<le> 1 / 2" by linarith
  then show "\<bar>of_int m - x / u\<bar> \<le> 1 / 2" unfolding m r_def .
qed

lemma fl_pos:
  assumes "0 < x"
  shows "0 < fl x"
proof -
  note s = fl_significand [OF assms]
  have "(0::rat) < of_int (py_round (x / 2 powi (ilog2 x - 52)))" using s(2) by simp
  then show ?thesis unfolding s(1) using s(4) by (intro mult_pos_pos)
qed

lemma fl_neg: "x < 0 \<Longrightarrow> fl x < 0"
  using fl_pos [of "- x"] by (simp add: fl_minus)

lemma fl_nonneg: "0 \<le> x \<Longrightarrow> 0 \<le> fl x"
  using fl_pos [of x] by (cases "x = 0") (simp_all add: fl_zero less_imp_le)

lemma fl_nonpos: "x \<le> 0 \<Longrightarrow> fl x \<le> 0"
  using fl_neg [of x] by (cases "x = 0") (simp_all add: fl_zero less_imp_le)

lemma fl_eq_0_iff: "fl x = 0 \<longleftrightarrow> x = 0"
proof
  assume a: "fl x = 0"
  show "x = 0"
  proof (rule ccontr)
    assume "x \<noteq> 0"
    then consider "0 < x" | "x < 0" by linarith
    then show False
    proof cases
      case 1
      from fl_pos [OF this] a show False by simp
    next
      case 2
      from fl_neg [OF this] a show False by simp
    qed
  qed
qed (simp add: fl_zero)

lemma fl_pos_iff: "0 < fl x \<longleftrightarrow> 0 < x"
  using fl_pos [of x] fl_nonpos [of x] by (cases "0 < x") auto

text \<open>A number with a significand of 53 bits is a float: rounding leaves it as it
  is.\<close>

lemma fl_exact_pos:
  assumes m: "0 < m" "m < 2 ^ 53" and x: "x = of_int m * 2 powi k"
  shows "fl x = x"
proof -
  have xpos: "0 < x" using m(1) x by simp
  let ?e = "ilog2 x"
  let ?u = "(2::rat) powi (?e - 52)"
  have "(2::rat) powi ?e \<le> x" using ilog2_bounds(1) [OF xpos] .
  also have "x < 2 ^ 53 * 2 powi k"
  proof -
    have "(of_int m :: rat) < of_int (2 ^ 53)" using m(2) by (simp only: of_int_less_iff)
    then have "(of_int m :: rat) < 2 ^ 53" by simp
    then show ?thesis unfolding x by (intro mult_strict_right_mono) simp_all
  qed
  also have "(2::rat) ^ 53 * 2 powi k = 2 powi (53 + k)"
    by (simp add: power_int_add)
  finally have "?e < 53 + k" by (rule powi_less_imp_less)
  then have j: "0 \<le> k - (?e - 52)" by simp
  have "x / ?u = of_int m * (2 powi k / ?u)" by (simp add: x)
  also have "2 powi k / ?u = (2::rat) powi (k - (?e - 52))" by (simp add: power_int_diff)
  also have "\<dots> = 2 ^ nat (k - (?e - 52))" using j by (simp add: power_int_def)
  finally have xu: "x / ?u = of_int (m * 2 ^ nat (k - (?e - 52)))" by simp
  have "fl x = of_int (py_round (x / ?u)) * ?u"
    using xpos by (simp add: fl_def Let_def)
  also have "\<dots> = (x / ?u) * ?u" unfolding xu py_round_of_int ..
  also have "\<dots> = x" by simp
  finally show ?thesis .
qed

lemma fl_exact:
  assumes "\<bar>m\<bar> < 2 ^ 53" and "x = of_int m * 2 powi k"
  shows "fl x = x"
proof -
  consider "m = 0" | "0 < m" | "m < 0" by linarith
  then show ?thesis
  proof cases
    case 1
    then show ?thesis using assms(2) by (simp add: fl_zero)
  next
    case 2
    then show ?thesis using assms by (intro fl_exact_pos [of m x k]) simp_all
  next
    case 3
    then have "fl (- x) = - x" using assms by (intro fl_exact_pos [of "- m" "- x" k]) simp_all
    then show ?thesis by (simp add: fl_minus)
  qed
qed

lemma fl_of_int: "\<bar>m\<bar> < 2 ^ 53 \<Longrightarrow> fl (of_int m) = of_int m"
  by (rule fl_exact [of m _ 0]) simp_all

lemma py_float_exact: "\<bar>m\<bar> < 2 ^ 53 \<Longrightarrow> py_float m = of_int m"
  by (simp add: py_float_def fl_of_int)

lemma fl_idem_pos:
  assumes "0 < x"
  shows "fl (fl x) = fl x"
proof -
  let ?e = "ilog2 x"
  let ?u = "(2::rat) powi (?e - 52)"
  let ?M = "py_round (x / ?u)"
  note s = fl_significand [OF assms]
  show ?thesis
  proof (cases "?M < 2 ^ 53")
    case True
    with s(2) have "\<bar>?M\<bar> < 2 ^ 53" by simp
    from fl_exact [OF this s(1)] show ?thesis .
  next
    case False
    with s(3) have M: "?M = 2 ^ 53" by simp
    have "?u * 2 = 2 powi ((?e - 52) + 1)" by (simp only: powi2_add) simp
    then have "fl x = of_int (2 ^ 52) * 2 powi (?e - 51)"
      unfolding s(1) M by (simp add: algebra_simps)
    moreover have "\<bar>(2::int) ^ 52\<bar> < 2 ^ 53" by simp
    ultimately show ?thesis using fl_exact [of "2 ^ 52" "fl x" "?e - 51"] by simp
  qed
qed

lemma fl_idem: "fl (fl x) = fl x"
proof -
  consider "x = 0" | "0 < x" | "x < 0" by linarith
  then show ?thesis
  proof cases
    case 1
    then show ?thesis by (simp add: fl_zero)
  next
    case 2
    then show ?thesis by (rule fl_idem_pos)
  next
    case 3
    then have "fl (fl (- x)) = fl (- x)" by (intro fl_idem_pos) simp
    then show ?thesis by (simp add: fl_minus)
  qed
qed

text \<open>The relative error of rounding is \<open>unit_roundoff\<close> at most.\<close>

lemma fl_error:
  assumes "0 \<le> x"
  shows "\<bar>fl x - x\<bar> \<le> x * unit_roundoff"
proof (cases "x = 0")
  case True
  then show ?thesis by (simp add: fl_zero)
next
  case False
  with assms have xpos: "0 < x" by simp
  define u where "u = (2::rat) powi (ilog2 x - 52)"
  define m where "m = py_round (x / u)"
  note s = fl_significand [OF xpos, folded u_def m_def]
  have "fl x - x = (of_int m - x / u) * u" using s(4) by (simp add: s(1) algebra_simps)
  then have "\<bar>fl x - x\<bar> = \<bar>of_int m - x / u\<bar> * u" using s(4) by (simp add: abs_mult)
  also have "\<dots> \<le> (1 / 2) * u" using s(5) s(4) by (intro mult_right_mono) simp_all
  also have "\<dots> = (u * 2 ^ 52) * unit_roundoff" by (simp add: unit_roundoff_def)
  also have "\<dots> \<le> x * unit_roundoff"
    using s(6) by (intro mult_right_mono) (simp_all add: unit_roundoff_def)
  finally show ?thesis .
qed

lemma fl_upper: "0 \<le> x \<Longrightarrow> fl x \<le> x * (1 + unit_roundoff)"
  using fl_error [of x] by (simp add: algebra_simps)

lemma fl_lower: "0 \<le> x \<Longrightarrow> x * (1 - unit_roundoff) \<le> fl x"
  using fl_error [of x] by (simp add: algebra_simps)


lemma py_round_mono:
  assumes "x \<le> y"
  shows "py_round x \<le> py_round y"
proof (cases "x = y")
  case True
  then show ?thesis by simp
next
  case False
  with assms have "x < y" by simp
  moreover have "of_int (py_round x) \<le> x + 1 / 2" by (rule py_round_upper)
  moreover have "y - 1 / 2 \<le> of_int (py_round y)" by (rule py_round_lower)
  ultimately have "(of_int (py_round x) :: rat) < of_int (py_round y) + 1" by linarith
  then have "(of_int (py_round x) :: rat) < of_int (py_round y + 1)" by simp
  then have "py_round x < py_round y + 1" by (simp only: of_int_less_iff)
  then show ?thesis by simp
qed

lemma fl_mono_pos:
  assumes x: "0 < x" and xy: "x \<le> y"
  shows "fl x \<le> fl y"
proof -
  have y: "0 < y" using x xy by linarith
  define ux where "ux = (2::rat) powi (ilog2 x - 52)"
  define uy where "uy = (2::rat) powi (ilog2 y - 52)"
  define mx where "mx = py_round (x / ux)"
  define my where "my = py_round (y / uy)"
  note sx = fl_significand [OF x, folded ux_def mx_def]
  note sy = fl_significand [OF y, folded uy_def my_def]
  have "(2::rat) powi (ilog2 x) \<le> x" using ilog2_bounds(1) [OF x] .
  also have "x \<le> y" by (rule xy)
  also have "y < 2 powi (ilog2 y + 1)" using ilog2_bounds(2) [OF y] .
  finally have "ilog2 x < ilog2 y + 1" by (rule powi_less_imp_less)
  then consider "ilog2 x = ilog2 y" | "ilog2 x + 1 \<le> ilog2 y" by linarith
  then show ?thesis
  proof cases
    case 1
    then have u: "ux = uy" by (simp add: ux_def uy_def)
    have "x / uy \<le> y / uy" using xy sy(4) by (intro divide_right_mono) simp_all
    then have "mx \<le> my" unfolding mx_def my_def u by (rule py_round_mono)
    then have "(of_int mx :: rat) \<le> of_int my" by (simp only: of_int_le_iff)
    then have "of_int mx * uy \<le> of_int my * uy" using sy(4) by (intro mult_right_mono) simp_all
    then show ?thesis unfolding sx(1) sy(1) u .
  next
    case 2
    have "(of_int mx :: rat) \<le> of_int (2 ^ 53)" using sx(3) by (simp only: of_int_le_iff)
    then have "(of_int mx :: rat) \<le> 2 ^ 53" by simp
    then have "of_int mx * ux \<le> 2 ^ 53 * ux" using sx(4) by (intro mult_right_mono) simp_all
    also have "\<dots> = 2 powi 53 * 2 powi (ilog2 x - 52)" by (simp add: ux_def)
    also have "\<dots> = 2 powi (53 + (ilog2 x - 52))" by (simp only: powi2_add)
    also have "\<dots> \<le> 2 powi (52 + (ilog2 y - 52))"
      using 2 by (intro power_int_increasing) simp_all
    also have "\<dots> = 2 powi 52 * 2 powi (ilog2 y - 52)" by (simp only: powi2_add)
    also have "\<dots> = 2 ^ 52 * uy" by (simp add: uy_def)
    also have "\<dots> \<le> of_int my * uy"
    proof -
      have "(of_int (2 ^ 52) :: rat) \<le> of_int my" using sy(2) by (simp only: of_int_le_iff)
      then have "(2 ^ 52 :: rat) \<le> of_int my" by simp
      then show ?thesis using sy(4) by (intro mult_right_mono) simp_all
    qed
    finally show ?thesis unfolding sx(1) sy(1) .
  qed
qed

lemma fl_mono:
  assumes "x \<le> y"
  shows "fl x \<le> fl y"
proof -
  consider "0 < x" | "x \<le> 0" "0 \<le> y" | "y < 0" by linarith
  then show ?thesis
  proof cases
    case 1
    then show ?thesis using assms by (rule fl_mono_pos)
  next
    case 2
    then have "fl x \<le> 0" and "0 \<le> fl y" by (simp_all add: fl_nonpos fl_nonneg)
    then show ?thesis by linarith
  next
    case 3
    then have "0 < - y" and "- y \<le> - x" using assms by simp_all
    then have "fl (- y) \<le> fl (- x)" by (rule fl_mono_pos)
    then show ?thesis by (simp add: fl_minus)
  qed
qed

lemma fmul_mono: "a \<le> b \<Longrightarrow> 0 \<le> c \<Longrightarrow> fmul a c \<le> fmul b c"
  unfolding fmul_def by (intro fl_mono mult_right_mono)

lemma fadd_nonneg: "0 \<le> a \<Longrightarrow> 0 \<le> b \<Longrightarrow> 0 \<le> fadd a b"
  by (simp add: fadd_def fl_nonneg)

lemma fsub_nonneg: "b \<le> a \<Longrightarrow> 0 \<le> fsub a b"
  by (simp add: fsub_def fl_nonneg)

lemma fsub_pos_iff: "0 < fsub a b \<longleftrightarrow> b < a"
  by (simp add: fsub_def fl_pos_iff)

lemma fadd_pos_iff: "0 \<le> a \<Longrightarrow> 0 \<le> b \<Longrightarrow> 0 < fadd a b \<longleftrightarrow> 0 < a \<or> 0 < b"
  unfolding fadd_def fl_pos_iff by linarith

lemma fadd_zero_right: "fl a = a \<Longrightarrow> fadd a 0 = a"
  by (simp add: fadd_def)

lemma fl_fadd: "fl (fadd a b) = fadd a b"
  by (simp add: fadd_def fl_idem)

section \<open>Slices of a list\<close>

lemma length_py_slice:
  assumes "0 \<le> i" and "0 \<le> j"
  shows "int (length (py_slice xs i j)) =
           max 0 (min j (int (length xs)) - min i (int (length xs)))"
  using assms by (auto simp: py_slice_def Let_def)

lemma py_slice_same: "py_slice xs i i = []"
  by (simp add: py_slice_def Let_def)

lemma py_slice_inside:
  assumes "0 \<le> i" and "i \<le> j" and "j \<le> int (length xs)"
  shows "py_slice xs i j = take (nat (j - i)) (drop (nat i) xs)"
  using assms by (simp add: py_slice_def Let_def min_def)

lemma missing_frames_bound:
  fixes s t :: int
  assumes "0 \<le> s" and "0 \<le> t"
  shows "(t - s) - int (length (py_slice xs s t)) \<le> max 0 (t - int (length xs))"
proof -
  define N where "N = int (length xs)"
  have "int (length (py_slice xs s t)) = max 0 (min t N - min s N)"
    unfolding N_def using assms by (rule length_py_slice)
  moreover have "(t - s) - max 0 (min t N - min s N) \<le> max 0 (t - N)"
    using assms by (auto simp: max_def min_def)
  ultimately show ?thesis unfolding N_def by (simp only:)
qed

lemma of_int_le_bound:
  fixes m k :: int and c :: rat
  assumes "m \<le> max 0 k" and "of_int k \<le> c" and "0 \<le> c"
  shows "of_int m \<le> c"
proof (cases "k \<le> 0")
  case True
  with assms(1) have "m \<le> 0" by simp
  then have "(of_int m :: rat) \<le> 0" by simp
  with assms(3) show ?thesis by linarith
next
  case False
  with assms(1) have "m \<le> k" by simp
  then have "(of_int m :: rat) \<le> of_int k" by (simp only: of_int_le_iff)
  with assms(2) show ?thesis by linarith
qed

section \<open>Signs of float operations\<close>

lemma py_float_nonneg: "0 \<le> n \<Longrightarrow> 0 \<le> py_float n"
  by (simp add: py_float_def fl_nonneg)

lemma py_float_pos: "0 < n \<Longrightarrow> 0 < py_float n"
  by (simp add: py_float_def fl_pos)

lemma py_float_zero: "py_float 0 = 0"
  by (simp add: py_float_def fl_zero)

lemma fmul_nonneg: "0 \<le> a \<Longrightarrow> 0 \<le> b \<Longrightarrow> 0 \<le> fmul a b"
  by (simp add: fmul_def fl_nonneg)

lemma fdiv_nonneg: "0 \<le> a \<Longrightarrow> 0 \<le> b \<Longrightarrow> 0 \<le> fdiv a b"
  by (simp add: fdiv_def fl_nonneg)

lemma fmul_zero_left: "fmul 0 b = 0"
  by (simp add: fmul_def fl_zero)

lemma fmul_zero_right: "fmul a 0 = 0"
  by (simp add: fmul_def fl_zero)

lemma fdiv_zero_left: "fdiv 0 b = 0"
  by (simp add: fdiv_def fl_zero)

lemma fsub_self: "fsub a a = 0"
  by (simp add: fsub_def fl_zero)

lemma frame_count_ms_nonneg:
  "0 \<le> frame_rate a \<Longrightarrow> 0 \<le> x \<Longrightarrow> 0 \<le> frame_count_ms a x"
  by (simp add: frame_count_ms_def fmul_nonneg fdiv_nonneg py_float_nonneg)

lemma min_len_nonneg: "0 \<le> val \<Longrightarrow> 0 \<le> n \<Longrightarrow> 0 \<le> min_len val n"
  by (simp add: min_len_def py_float_nonneg)

lemma min_len_idem: "min_len (min_len val n) n = min_len val n"
  by (simp add: min_len_def)

lemma min_len_min: "\<bar>n\<bar> < 2 ^ 53 \<Longrightarrow> min_len val n = min val (of_int n)"
  by (simp add: min_len_def py_float_exact min_def)

lemma min_len_below: "val \<le> of_int n \<Longrightarrow> min_len val n = val"
  by (simp add: min_len_def)

section \<open>Lengths and slices of a track\<close>

lemma audio_len_pos:
  assumes "0 < frame_rate a"
  shows "audio_len a = Inr (py_round (fmul 1000 (fdiv (py_float (int (length (frames a))))
                                                     (py_float (frame_rate a)))))"
proof -
  have "0 \<le> fmul 1000 (fdiv (py_float (int (length (frames a)))) (py_float (frame_rate a)))"
    using assms by (intro fmul_nonneg fdiv_nonneg py_float_nonneg) simp_all
  then have "0 \<le> py_round (fmul 1000 (fdiv (py_float (int (length (frames a))))
                                           (py_float (frame_rate a))))"
    by (rule py_round_nonneg)
  then show ?thesis using assms by (simp add: audio_len_def Let_def)
qed

lemma audio_len_nonneg: "audio_len a = Inr n \<Longrightarrow> 0 \<le> n"
  by (auto simp: audio_len_def Let_def split: if_splits)

lemma audio_len_empty:
  assumes "0 < frame_rate a" and "frames a = []"
  shows "audio_len a = Inr 0"
  using audio_len_pos [OF assms(1)] assms(2)
  by (simp add: py_float_zero fdiv_zero_left fmul_zero_right py_round_zero)

lemma frames_silent_zero: "frames (silent 0) = []"
  by (simp add: silent_def py_float_zero fdiv_zero_left fmul_zero_right py_int_def)

text \<open>The error analysis behind the slices: with fewer than \<open>2 ^ 32\<close> frames, the
  frame index of a position cut to the length of the track lies less than two
  milliseconds after the data.\<close>

lemma frame_pos_arith:
  fixes N F c q1 q2 n m fc :: rat
  defines "A \<equiv> 1 + unit_roundoff" and "B \<equiv> 1 - unit_roundoff"
  assumes N: "0 \<le> N" "N \<le> 2 ^ 32" and F: "B \<le> F"
      and c: "c \<le> F / 1000 * A" "F / 1000 * B \<le> c"
      and q1: "0 \<le> q1" "q1 \<le> N / F * A" and q2: "q2 \<le> 1000 * q1 * A"
      and n: "0 \<le> n" "n \<le> q2 + 1 / 2"
      and m: "0 \<le> m" "m \<le> n * A" and fc: "fc \<le> m * c * A"
  shows "fc - N \<le> 2 * c * B"
proof -
  have A: "1 \<le> A" "0 < A" and B: "0 < B" by (simp_all add: A_def B_def unit_roundoff_def)
  have Fpos: "0 < F" using B F by linarith
  have cpos: "0 < c"
  proof -
    have "0 < F / 1000 * B" using Fpos B by simp
    with c(2) show ?thesis by linarith
  qed
  have NF: "0 \<le> N / F * A" using N(1) Fpos A(2) by simp
  have "q1 * c \<le> (N / F * A) * (F / 1000 * A)"
    using q1 c(1) NF cpos by (intro mult_mono) simp_all
  also have "\<dots> = N * A ^ 2 / 1000" using Fpos by (simp add: field_simps power2_eq_square)
  finally have qc: "q1 * c \<le> N * A ^ 2 / 1000" .
  have "q2 * c \<le> (1000 * q1 * A) * c" using q2 cpos by (intro mult_right_mono) simp_all
  also have "\<dots> = (1000 * A) * (q1 * c)" by simp
  also have "\<dots> \<le> (1000 * A) * (N * A ^ 2 / 1000)"
    using qc A(2) by (intro mult_left_mono) simp_all
  also have "\<dots> = N * A ^ 3" by (simp add: power3_eq_cube power2_eq_square)
  finally have q2c: "q2 * c \<le> N * A ^ 3" .
  have "n * c \<le> (q2 + 1 / 2) * c" using n(2) cpos by (intro mult_right_mono) simp_all
  also have "\<dots> = q2 * c + c / 2" by (simp add: algebra_simps)
  finally have nc: "n * c \<le> N * A ^ 3 + c / 2" using q2c by linarith
  have mc: "m * c \<le> (n * A) * c" using m(2) cpos by (intro mult_right_mono) simp_all
  have A0: "0 \<le> A" using A(2) by simp
  have "m * c * A \<le> ((n * A) * c) * A" using mc A0 by (rule mult_right_mono)
  also have "\<dots> = (n * c) * A ^ 2" by (simp add: power2_eq_square)
  also have "\<dots> \<le> (N * A ^ 3 + c / 2) * A ^ 2"
    using nc by (intro mult_right_mono) simp_all
  also have "\<dots> = N * A ^ 5 + c * (A ^ 2 / 2)" by (simp add: algebra_simps power_add [symmetric])
  finally have fcu: "fc \<le> N * A ^ 5 + c * (A ^ 2 / 2)" using fc by linarith
  have A5: "0 \<le> A ^ 5 - 1" using A(1) by simp
  have "N * (A ^ 5 - 1) \<le> 2 ^ 32 * (A ^ 5 - 1)" using N(2) A5 by (intro mult_right_mono)
  also have "\<dots> \<le> B * B / 1000 * (2 * B - A ^ 2 / 2)"
    unfolding A_def B_def by code_simp
  also have "\<dots> \<le> c * (2 * B - A ^ 2 / 2)"
  proof (intro mult_right_mono)
    have "B / 1000 * B \<le> F / 1000 * B" using F B by (intro mult_right_mono) simp_all
    with c(2) show "B * B / 1000 \<le> c" by simp
    show "0 \<le> 2 * B - A ^ 2 / 2" unfolding A_def B_def by code_simp
  qed
  finally have "N * (A ^ 5 - 1) \<le> c * (2 * B - A ^ 2 / 2)" .
  then have "N * A ^ 5 + c * (A ^ 2 / 2) - N \<le> 2 * c * B" by (simp add: algebra_simps)
  with fcu show ?thesis by linarith
qed


lemma frame_pos_bound:
  assumes fr: "0 < frame_rate a" and sz: "length (frames a) < 2 ^ 32"
      and n: "audio_len a = Inr n" and v: "0 \<le> val"
  shows "of_int (py_int (frame_count_ms a (min_len val n)) - int (length (frames a)))
           \<le> frame_count_ms a 2"
    and "0 \<le> py_int (frame_count_ms a (min_len val n))"
    and "0 \<le> frame_count_ms a 2"
proof -
  define A where "A = 1 + unit_roundoff"
  define B where "B = 1 - unit_roundoff"
  define N :: rat where "N = of_nat (length (frames a))"
  define F where "F = py_float (frame_rate a)"
  define c where "c = fdiv F 1000"
  define q1 where "q1 = fdiv (py_float (int (length (frames a)))) F"
  define q2 where "q2 = fmul 1000 q1"
  define m where "m = min_len val n"
  define fc where "fc = frame_count_ms a m"
  have B: "0 < B" "B \<le> 1" by (simp_all add: B_def unit_roundoff_def)
  have n0: "0 \<le> n" using n by (rule audio_len_nonneg)
  have N0: "0 \<le> N" by (simp add: N_def)
  have N32: "N \<le> 2 ^ 32"
  proof -
    have "(of_nat (length (frames a)) :: rat) < of_nat (2 ^ 32)"
      using sz by (simp only: of_nat_less_iff)
    then show ?thesis by (simp add: N_def)
  qed
  have fr1: "(1::rat) \<le> of_int (frame_rate a)" using fr by simp
  have FB: "B \<le> F"
  proof -
    have "B \<le> of_int (frame_rate a) * B" using fr1 B(1) by simp
    also have "\<dots> \<le> fl (of_int (frame_rate a))"
      unfolding B_def using fr1 by (intro fl_lower) simp
    finally show ?thesis by (simp add: F_def py_float_def)
  qed
  have Fpos: "0 < F" using FB B(1) by linarith
  have F1000: "0 \<le> F / 1000" using Fpos by simp
  have c_up: "c \<le> F / 1000 * A" unfolding c_def fdiv_def A_def using F1000 by (rule fl_upper)
  have c_lo: "F / 1000 * B \<le> c" unfolding c_def fdiv_def B_def using F1000 by (rule fl_lower)
  have c0: "0 \<le> c" unfolding c_def using Fpos by (intro fdiv_nonneg) simp_all
  have KN: "py_float (int (length (frames a))) = N"
  proof -
    have "\<bar>int (length (frames a))\<bar> < 2 ^ 53" using sz by simp
    then show ?thesis by (simp add: py_float_exact N_def)
  qed
  have NF: "0 \<le> N / F" using N0 Fpos by simp
  have q1_0: "0 \<le> q1" unfolding q1_def KN fdiv_def using NF by (rule fl_nonneg)
  have q1_up: "q1 \<le> N / F * A" unfolding q1_def KN fdiv_def A_def using NF by (rule fl_upper)
  have q2_up: "q2 \<le> 1000 * q1 * A"
    unfolding q2_def fmul_def A_def using q1_0 by (intro fl_upper) simp
  have n_eq: "n = py_round q2"
    using n audio_len_pos [OF fr] by (simp add: q2_def q1_def F_def)
  have n_up: "of_int n \<le> q2 + 1 / 2" unfolding n_eq by (rule py_round_upper)
  have n_r: "(0::rat) \<le> of_int n" using n0 by simp
  have m0: "0 \<le> m" unfolding m_def using v n0 by (rule min_len_nonneg)
  have m_up: "m \<le> of_int n * A"
  proof (cases "of_int n < val")
    case True
    then have "m = fl (of_int n)" by (simp add: m_def min_len_def py_float_def)
    also have "\<dots> \<le> of_int n * A" unfolding A_def using n_r by (rule fl_upper)
    finally show ?thesis .
  next
    case False
    then have "m = val" and "val \<le> of_int n" by (simp_all add: m_def min_len_def)
    moreover have "of_int n * 1 \<le> of_int n * A"
      using n_r by (intro mult_left_mono) (simp_all add: A_def unit_roundoff_def)
    ultimately show ?thesis by simp
  qed
  have mc0: "0 \<le> m * c" using m0 c0 by simp
  have fc_eq: "fc = fl (m * c)" by (simp add: fc_def frame_count_ms_def fmul_def c_def F_def)
  have fc0: "0 \<le> fc" unfolding fc_eq using mc0 by (rule fl_nonneg)
  have fc_up: "fc \<le> m * c * A" unfolding fc_eq A_def using mc0 by (rule fl_upper)
  have main: "fc - N \<le> 2 * c * B"
    using N0 N32 FB c_up c_lo q1_0 q1_up q2_up n_r n_up m0 m_up fc_up
    unfolding A_def B_def by (rule frame_pos_arith)
  have th: "frame_count_ms a 2 = fl (2 * c)"
    by (simp add: frame_count_ms_def fmul_def c_def F_def)
  have "2 * c * B \<le> fl (2 * c)" unfolding B_def using c0 by (intro fl_lower) simp
  then have le: "fc - N \<le> frame_count_ms a 2" using main th by simp
  have "of_int (py_int fc) \<le> fc" using fc0 by (rule py_int_le)
  then have "of_int (py_int fc) - N \<le> frame_count_ms a 2" using le by linarith
  then show "of_int (py_int (frame_count_ms a (min_len val n)) - int (length (frames a)))
           \<le> frame_count_ms a 2"
    by (simp add: fc_def m_def N_def)
  show "0 \<le> py_int (frame_count_ms a (min_len val n))"
    using fc0 unfolding fc_def m_def by (rule py_int_ge0)
  show "0 \<le> frame_count_ms a 2" unfolding th using c0 by (intro fl_nonneg) simp
qed

lemma parse_position_nonneg:
  "0 \<le> val \<Longrightarrow> parse_position a val = Inr (py_int (frame_count_ms a val))"
  by (simp add: parse_position_def)

lemma missing_le:
  assumes fr: "0 < frame_rate a" and sz: "length (frames a) < 2 ^ 32"
      and n: "audio_len a = Inr n" and st: "0 \<le> start" and sp: "0 \<le> stop"
  defines "s \<equiv> py_int (frame_count_ms a (min_len start n))"
  defines "t \<equiv> py_int (frame_count_ms a (min_len stop n))"
  shows "of_int ((t - s) - int (length (py_slice (frames a) s t))) \<le> frame_count_ms a 2"
proof -
  have s0: "0 \<le> s" unfolding s_def using fr sz n st by (rule frame_pos_bound(2))
  have t0: "0 \<le> t" unfolding t_def using fr sz n sp by (rule frame_pos_bound(2))
  have m1: "(t - s) - int (length (py_slice (frames a) s t)) \<le> max 0 (t - int (length (frames a)))"
    using s0 t0 by (rule missing_frames_bound)
  have m2: "of_int (t - int (length (frames a))) \<le> frame_count_ms a 2"
    unfolding t_def using fr sz n sp by (rule frame_pos_bound(1))
  have m3: "0 \<le> frame_count_ms a 2" using fr sz n sp by (rule frame_pos_bound(3))
  show ?thesis using m1 m2 m3 by (rule of_int_le_bound)
qed

text \<open>The content of a slice between two non-negative bounds: the data between the two
  frame indices, and zero frames after it where the data ends before the second index.\<close>

lemma getitem_nonneg:
  assumes fr: "0 < frame_rate a" and sz: "length (frames a) < 2 ^ 32"
      and n: "audio_len a = Inr n" and st: "0 \<le> start" and sp: "0 \<le> stop"
  defines "s \<equiv> py_int (frame_count_ms a (min_len start n))"
  defines "t \<equiv> py_int (frame_count_ms a (min_len stop n))"
  defines "data \<equiv> py_slice (frames a) s t"
  shows "getitem a start stop =
           Inr (spawn a (data @ concat (replicate (nat ((t - s) - int (length data)))
                                          (map (map (\<lambda>x. 0)) (take 1 data)))))"
proof -
  have n0: "0 \<le> n" using n by (rule audio_len_nonneg)
  have ms: "0 \<le> min_len start n" and mt: "0 \<le> min_len stop n"
    using st sp n0 by (simp_all add: min_len_nonneg)
  have ps: "parse_position a (min_len start n) = Inr s"
    and pt: "parse_position a (min_len stop n) = Inr t"
    using ms mt by (simp_all add: parse_position_nonneg s_def t_def)
  let ?m = "(t - s) - int (length data)"
  have "(of_int ?m :: rat) \<le> frame_count_ms a 2"
    unfolding data_def s_def t_def using fr sz n st sp by (rule missing_le)
  then have nm: "\<not> frame_count_ms a 2 < of_int ?m" by simp
  show ?thesis
  proof (cases "?m = 0")
    case True
    then show ?thesis
      unfolding getitem_def data_def [symmetric]
      by (simp only: n ps pt sum.case Let_def data_def [symmetric] if_False simp_thms
            nat_0 replicate_0 concat.simps append_Nil2)
  next
    case False
    then show ?thesis
      unfolding getitem_def using nm
      by (simp only: n ps pt sum.case Let_def data_def [symmetric] if_True if_False simp_thms)
  qed
qed

lemma getitem_total:
  assumes "0 < frame_rate a" and "length (frames a) < 2 ^ 32"
      and "0 \<le> start" and "0 \<le> stop"
  shows "\<exists>data. getitem a start stop = Inr (spawn a data)"
proof -
  obtain n where n: "audio_len a = Inr n" using audio_len_pos [OF assms(1)] by blast
  from getitem_nonneg [OF assms(1,2) n assms(3,4)] show ?thesis by blast
qed

lemma getitem_same:
  assumes "audio_len a = Inr n"
  shows "getitem a x x = Inr (spawn a [])"
proof -
  have "\<exists>s. parse_position a (min_len x n) = Inr s"
    by (simp add: parse_position_def assms)
  then obtain s where s: "parse_position a (min_len x n) = Inr s" ..
  show ?thesis
    unfolding getitem_def
    by (simp only: assms s sum.case Let_def py_slice_same list.size diff_self
          of_nat_0 simp_thms if_False)
qed

lemma getitem_format:
  assumes "getitem a start stop = Inr c"
  shows "channels c = channels a \<and> frame_rate c = frame_rate a \<and> sample_width c = sample_width a"
proof -
  from assms obtain data where "c = spawn a data"
    unfolding getitem_def Let_def by (auto split: sum.splits if_splits)
  then show ?thesis by (simp add: spawn_def)
qed

lemma getitem_spawn:
  assumes "getitem a start stop = Inr c"
  shows "c = spawn a (frames c)"
proof -
  from assms obtain data where "c = spawn a data"
    unfolding getitem_def Let_def by (auto split: sum.splits if_splits)
  then show ?thesis by (simp add: spawn_def)
qed

text \<open>A slice that ends inside the data is the data between the two frame indices.\<close>

lemma getitem_in_data:
  assumes n: "audio_len a = Inr n"
      and st: "0 \<le> start" "start \<le> of_int n" and sp: "0 \<le> stop" "stop \<le> of_int n"
      and s: "py_int (frame_count_ms a start) = s" and t: "py_int (frame_count_ms a stop) = t"
      and le: "0 \<le> s" "s \<le> t" "t \<le> int (length (frames a))"
  shows "getitem a start stop = Inr (spawn a (take (nat (t - s)) (drop (nat s) (frames a))))"
proof -
  have ms: "min_len start n = start" and mt: "min_len stop n = stop"
    using st sp by (simp_all add: min_len_below)
  have ps: "parse_position a start = Inr s" and pt: "parse_position a stop = Inr t"
    using st sp s t by (simp_all add: parse_position_nonneg)
  have sl: "py_slice (frames a) s t = take (nat (t - s)) (drop (nat s) (frames a))"
    using le by (rule py_slice_inside)
  have "int (length (take (nat (t - s)) (drop (nat s) (frames a)))) = t - s"
    using le by simp
  then have z: "(t - s) - int (length (take (nat (t - s)) (drop (nat s) (frames a)))) = 0"
    by simp
  show ?thesis
    unfolding getitem_def
    by (simp only: n ms mt ps pt sum.case Let_def sl z simp_thms if_False)
qed


text \<open>Silence made for a length in milliseconds has that length, for every length
  below \<open>2 ^ 44\<close>.\<close>

lemma silent_arith_num:
  fixes d y1 y k z1 z :: rat
  assumes "0 \<le> d" and "d < 17592186044416"
      and "y1 \<le> d * (9007199254740993 / 9007199254740992000)"
      and "d * (9007199254740991 / 9007199254740992000) \<le> y1"
      and "y \<le> y1 * (11025 * 9007199254740993 / 9007199254740992)"
      and "y1 * (11025 * 9007199254740991 / 9007199254740992) \<le> y"
      and "k \<le> y" and "y < k + 1"
      and "z1 \<le> k * (9007199254740993 / (11025 * 9007199254740992))"
      and "k * (9007199254740991 / (11025 * 9007199254740992)) \<le> z1"
      and "z \<le> z1 * (1000 * 9007199254740993 / 9007199254740992)"
      and "z1 * (1000 * 9007199254740991 / 9007199254740992) \<le> z"
  shows "d - 1 / 2 < z" and "z < d + 1 / 2"
  using assms by linarith+

lemma silent_arith:
  fixes d y1 y k z1 z :: rat
  assumes "0 \<le> d" and "d < 2 ^ 44"
      and "y1 \<le> d / 1000 * (1 + 1 / 2 ^ 53)" and "d / 1000 * (1 - 1 / 2 ^ 53) \<le> y1"
      and "y \<le> 11025 * y1 * (1 + 1 / 2 ^ 53)" and "11025 * y1 * (1 - 1 / 2 ^ 53) \<le> y"
      and "k \<le> y" and "y < k + 1"
      and "z1 \<le> k / 11025 * (1 + 1 / 2 ^ 53)" and "k / 11025 * (1 - 1 / 2 ^ 53) \<le> z1"
      and "z \<le> 1000 * z1 * (1 + 1 / 2 ^ 53)" and "1000 * z1 * (1 - 1 / 2 ^ 53) \<le> z"
  shows "d - 1 / 2 < z" and "z < d + 1 / 2"
proof -
  have a: "d < 17592186044416" using assms(2) by simp
  have b: "y1 \<le> d * (9007199254740993 / 9007199254740992000)" using assms(3) by simp
  have c: "d * (9007199254740991 / 9007199254740992000) \<le> y1" using assms(4) by simp
  have d: "y \<le> y1 * (11025 * 9007199254740993 / 9007199254740992)" using assms(5) by simp
  have e: "y1 * (11025 * 9007199254740991 / 9007199254740992) \<le> y" using assms(6) by simp
  have f: "z1 \<le> k * (9007199254740993 / (11025 * 9007199254740992))" using assms(9) by simp
  have g: "k * (9007199254740991 / (11025 * 9007199254740992)) \<le> z1" using assms(10) by simp
  have h: "z \<le> z1 * (1000 * 9007199254740993 / 9007199254740992)" using assms(11) by simp
  have i: "z1 * (1000 * 9007199254740991 / 9007199254740992) \<le> z" using assms(12) by simp
  show "d - 1 / 2 < z" and "z < d + 1 / 2"
    using assms(1) a b c d e assms(7,8) f g h i by (rule silent_arith_num)+
qed

lemma silent_arith_k:
  fixes d y1 y k :: rat
  assumes "0 \<le> d" and "d < 2 ^ 44"
      and "y1 \<le> d / 1000 * (1 + 1 / 2 ^ 53)"
      and "y \<le> 11025 * y1 * (1 + 1 / 2 ^ 53)"
      and "k \<le> y"
  shows "k < 2 ^ 53"
proof -
  have a: "d < 17592186044416" using assms(2) by simp
  have b: "y1 \<le> d * (9007199254740993 / 9007199254740992000)" using assms(3) by simp
  have d: "y \<le> y1 * (11025 * 9007199254740993 / 9007199254740992)" using assms(4) by simp
  have "k < 9007199254740992" using assms(1) a b d assms(5) by linarith
  then show ?thesis by simp
qed

lemma audio_len_silent:
  assumes "0 \<le> d" and "d < 2 ^ 44"
  shows "audio_len (silent d) = Inr d"
proof -
  define y1 where "y1 = fdiv (py_float d) 1000"
  define y where "y = fmul (py_float 11025) y1"
  define k where "k = py_int y"
  define z1 where "z1 = fdiv (py_float k) (py_float 11025)"
  define z where "z = fmul 1000 z1"
  have dr: "(0::rat) \<le> of_int d" using assms(1) by simp
  have d44: "(of_int d :: rat) < 2 ^ 44"
  proof -
    have "(of_int d :: rat) < of_int (2 ^ 44)" using assms(2) by (simp only: of_int_less_iff)
    then show ?thesis by simp
  qed
  have pd: "py_float d = of_int d" using assms by (intro py_float_exact) simp
  have p11: "py_float 11025 = 11025" using py_float_exact [of 11025] by simp
  have x1: "(0::rat) \<le> of_int d / 1000" using dr by simp
  have y1u: "y1 \<le> of_int d / 1000 * (1 + 1 / 2 ^ 53)"
    unfolding y1_def pd fdiv_def using fl_upper [OF x1] by (simp add: unit_roundoff_def)
  have y1l: "of_int d / 1000 * (1 - 1 / 2 ^ 53) \<le> y1"
    unfolding y1_def pd fdiv_def using fl_lower [OF x1] by (simp add: unit_roundoff_def)
  have y10: "0 \<le> y1" unfolding y1_def pd fdiv_def using x1 by (rule fl_nonneg)
  have x2: "0 \<le> 11025 * y1" using y10 by simp
  have yu: "y \<le> 11025 * y1 * (1 + 1 / 2 ^ 53)"
    unfolding y_def p11 fmul_def using fl_upper [OF x2] by (simp add: unit_roundoff_def)
  have yl: "11025 * y1 * (1 - 1 / 2 ^ 53) \<le> y"
    unfolding y_def p11 fmul_def using fl_lower [OF x2] by (simp add: unit_roundoff_def)
  have y0: "0 \<le> y" unfolding y_def p11 fmul_def using x2 by (rule fl_nonneg)
  have k0: "0 \<le> k" unfolding k_def using y0 by (rule py_int_ge0)
  have kf: "k = \<lfloor>y\<rfloor>" unfolding k_def using y0 by (rule py_int_nonneg)
  have ku: "of_int k \<le> y" unfolding kf by (rule of_int_floor_le)
  have kl: "y < of_int k + 1" unfolding kf by linarith
  have kb: "(of_int k :: rat) < 2 ^ 53" using dr d44 y1u yu ku by (rule silent_arith_k)
  have pk: "py_float k = of_int k"
  proof -
    have "(of_int k :: rat) < of_int (2 ^ 53)" using kb by simp
    then have "k < 2 ^ 53" by (simp only: of_int_less_iff)
    with k0 show ?thesis by (intro py_float_exact) simp
  qed
  have x3: "(0::rat) \<le> of_int k / 11025" using k0 by simp
  have z1u: "z1 \<le> of_int k / 11025 * (1 + 1 / 2 ^ 53)"
    unfolding z1_def pk p11 fdiv_def using fl_upper [OF x3] by (simp add: unit_roundoff_def)
  have z1l: "of_int k / 11025 * (1 - 1 / 2 ^ 53) \<le> z1"
    unfolding z1_def pk p11 fdiv_def using fl_lower [OF x3] by (simp add: unit_roundoff_def)
  have z10: "0 \<le> z1" unfolding z1_def pk p11 fdiv_def using x3 by (rule fl_nonneg)
  have x4: "0 \<le> 1000 * z1" using z10 by simp
  have zu: "z \<le> 1000 * z1 * (1 + 1 / 2 ^ 53)"
    unfolding z_def fmul_def using fl_upper [OF x4] by (simp add: unit_roundoff_def)
  have zl: "1000 * z1 * (1 - 1 / 2 ^ 53) \<le> z"
    unfolding z_def fmul_def using fl_lower [OF x4] by (simp add: unit_roundoff_def)
  have "of_int d - 1 / 2 < z" and "z < of_int d + 1 / 2"
    using dr d44 y1u y1l yu yl ku kl z1u z1l zu zl by (rule silent_arith)+
  then have r: "py_round z = d" by (rule py_round_eqI)
  have fs: "frames (silent d) = replicate (nat k) [0]"
    by (simp add: silent_def k_def y_def y1_def)
  have len: "int (length (frames (silent d))) = k" unfolding fs using k0 by simp
  have "audio_len (silent d) = Inr (py_round z)"
    using audio_len_pos [of "silent d"] unfolding len
    by (simp add: silent_def z_def z1_def)
  with r show ?thesis by simp
qed


lemma length_take_drop_le: "length (take k (drop l xs)) \<le> length xs"
  by simp

lemma length_py_slice_le: "length (py_slice xs i j) \<le> length xs"
  unfolding py_slice_def Let_def by (rule length_take_drop_le)

lemma length_concat_replicate: "length (concat (replicate k xs)) = k * length xs"
  by (induction k) simp_all

lemma chunk_len_arith:
  fixes N F c th K kf q1 q2 m :: rat
  defines "A \<equiv> 1 + unit_roundoff" and "B \<equiv> 1 - unit_roundoff"
  assumes N: "0 \<le> N" "N \<le> 2 ^ 32" and F: "B \<le> F"
      and c: "0 \<le> c" "c \<le> F / 1000 * A" and th: "th \<le> 2 * c * A"
      and K: "K \<le> N + th" and kf: "0 \<le> kf" "kf \<le> K * A"
      and q1: "0 \<le> q1" "q1 \<le> kf / F * A" and q2: "q2 \<le> 1000 * q1 * A"
      and m: "m \<le> q2 + 1 / 2"
  shows "m < 2 ^ 44"
proof -
  have A: "1 \<le> A" "0 < A" "0 \<le> A" and B: "0 < B"
    by (simp_all add: A_def B_def unit_roundoff_def)
  have Fpos: "0 < F" using B F by linarith
  have "2 * c * A \<le> 2 * (F / 1000 * A) * A"
    using c(2) A(3) by (intro mult_right_mono mult_left_mono) simp_all
  moreover have "2 * (F / 1000 * A) * A = F * (A ^ 2 / 500)" by (simp add: power2_eq_square)
  ultimately have thF: "th \<le> F * (A ^ 2 / 500)" using th by linarith
  have KF: "K \<le> N + F * (A ^ 2 / 500)" using K thF by linarith
  have "kf \<le> (N + F * (A ^ 2 / 500)) * A"
  proof -
    have "K * A \<le> (N + F * (A ^ 2 / 500)) * A" using KF A(3) by (rule mult_right_mono)
    with kf(2) show ?thesis by linarith
  qed
  then have "kf / F \<le> (N + F * (A ^ 2 / 500)) * A / F"
    using Fpos by (intro divide_right_mono) simp_all
  also have "\<dots> = N * A / F + A ^ 3 / 500"
    using Fpos by (simp add: field_simps power2_eq_square power3_eq_cube)
  also have "N * A / F \<le> N * A / B"
    using F B Fpos N(1) A(3) by (intro divide_left_mono) simp_all
  also have "N * A / B \<le> 2 ^ 32 * A / B"
    using N(2) A(3) B by (intro divide_right_mono mult_right_mono) simp_all
  finally have R: "kf / F \<le> 2 ^ 32 * A / B + A ^ 3 / 500" by simp
  have "kf / F * A \<le> (2 ^ 32 * A / B + A ^ 3 / 500) * A" using R A(3) by (rule mult_right_mono)
  with q1(2) have q1b: "q1 \<le> (2 ^ 32 * A / B + A ^ 3 / 500) * A" by linarith
  have "1000 * q1 * A \<le> 1000 * ((2 ^ 32 * A / B + A ^ 3 / 500) * A) * A"
    using q1b A(3) by (intro mult_right_mono mult_left_mono) simp_all
  with q2 m have "m \<le> 1000 * ((2 ^ 32 * A / B + A ^ 3 / 500) * A) * A + 1 / 2" by linarith
  also have "\<dots> < 2 ^ 44" unfolding A_def B_def by code_simp
  finally show ?thesis .
qed

lemma chunk_len_bound:
  assumes fr: "0 < frame_rate a" and sz: "length (frames a) < 2 ^ 32"
      and st: "0 \<le> start" and sp: "0 \<le> stop"
      and g: "getitem a start stop = Inr chunk" and l: "audio_len chunk = Inr m"
  shows "m < 2 ^ 44"
proof -
  define A where "A = 1 + unit_roundoff"
  define B where "B = 1 - unit_roundoff"
  define N :: rat where "N = of_nat (length (frames a))"
  define F where "F = py_float (frame_rate a)"
  define c where "c = fdiv F 1000"
  define th where "th = frame_count_ms a 2"
  obtain n where n: "audio_len a = Inr n" using audio_len_pos [OF fr] by blast
  define s where "s = py_int (frame_count_ms a (min_len start n))"
  define t where "t = py_int (frame_count_ms a (min_len stop n))"
  define data where "data = py_slice (frames a) s t"
  define pad where "pad = concat (replicate (nat ((t - s) - int (length data)))
                                   (map (map (\<lambda>x. 0::int)) (take 1 data)))"
  have B: "0 < B" by (simp add: B_def unit_roundoff_def)
  have A0: "0 \<le> A" by (simp add: A_def unit_roundoff_def)
  have N0: "0 \<le> N" by (simp add: N_def)
  have N32: "N \<le> 2 ^ 32"
  proof -
    have "(of_nat (length (frames a)) :: rat) < of_nat (2 ^ 32)"
      using sz by (simp only: of_nat_less_iff)
    then show ?thesis by (simp add: N_def)
  qed
  have fr1: "(1::rat) \<le> of_int (frame_rate a)" using fr by simp
  have FB: "B \<le> F"
  proof -
    have "B \<le> of_int (frame_rate a) * B" using fr1 B by simp
    also have "\<dots> \<le> fl (of_int (frame_rate a))"
      unfolding B_def using fr1 by (intro fl_lower) simp
    finally show ?thesis by (simp add: F_def py_float_def)
  qed
  have Fpos: "0 < F" using FB B by linarith
  have F1000: "0 \<le> F / 1000" using Fpos by simp
  have c_up: "c \<le> F / 1000 * A" unfolding c_def fdiv_def A_def using F1000 by (rule fl_upper)
  have c0: "0 \<le> c" unfolding c_def using Fpos by (intro fdiv_nonneg) simp_all
  have th_eq: "th = fl (2 * c)" by (simp add: th_def frame_count_ms_def fmul_def c_def F_def)
  have th_up: "th \<le> 2 * c * A" unfolding th_eq A_def using c0 by (intro fl_upper) simp
  have th0: "0 \<le> th" unfolding th_eq using c0 by (intro fl_nonneg) simp
  have chunk: "chunk = spawn a (data @ pad)"
    using getitem_nonneg [OF fr sz n st sp] g by (simp add: data_def pad_def s_def t_def)
  define K :: rat where "K = of_nat (length (frames chunk))"
  have miss: "of_int ((t - s) - int (length data)) \<le> th"
    unfolding th_def data_def s_def t_def using fr sz n st sp by (rule missing_le)
  have "length pad \<le> nat ((t - s) - int (length data))"
    unfolding pad_def length_concat_replicate by simp
  then have "(of_nat (length pad) :: rat) \<le> of_nat (nat ((t - s) - int (length data)))"
    by (simp only: of_nat_le_iff)
  also have "\<dots> = of_int (max 0 ((t - s) - int (length data)))" by (simp add: max_def)
  also have "\<dots> \<le> th" using miss th0 by (simp add: max_def)
  finally have padb: "of_nat (length pad) \<le> th" .
  have "length data \<le> length (frames a)" unfolding data_def by (rule length_py_slice_le)
  then have datab: "(of_nat (length data) :: rat) \<le> N" unfolding N_def by (simp only: of_nat_le_iff)
  have KN: "K \<le> N + th" using padb datab by (simp add: K_def chunk spawn_def)
  have K0: "0 \<le> K" by (simp add: K_def)
  define kf where "kf = py_float (int (length (frames chunk)))"
  define q1 where "q1 = fdiv kf F"
  define q2 where "q2 = fmul 1000 q1"
  have kf_eq: "kf = fl K" by (simp add: kf_def py_float_def K_def)
  have kf0: "0 \<le> kf" unfolding kf_eq using K0 by (rule fl_nonneg)
  have kf_up: "kf \<le> K * A" unfolding kf_eq A_def using K0 by (rule fl_upper)
  have kF: "0 \<le> kf / F" using kf0 Fpos by simp
  have q1_0: "0 \<le> q1" unfolding q1_def fdiv_def using kF by (rule fl_nonneg)
  have q1_up: "q1 \<le> kf / F * A" unfolding q1_def fdiv_def A_def using kF by (rule fl_upper)
  have q2_up: "q2 \<le> 1000 * q1 * A"
    unfolding q2_def fmul_def A_def using q1_0 by (intro fl_upper) simp
  have frc: "frame_rate chunk = frame_rate a" by (simp add: chunk spawn_def)
  have "m = py_round q2"
    using l audio_len_pos [of chunk] fr unfolding frc
    by (simp add: q2_def q1_def kf_def F_def)
  then have m_up: "of_int m \<le> q2 + 1 / 2" using py_round_upper by simp
  have "(of_int m :: rat) < 2 ^ 44"
    using N0 N32 FB c0 c_up th_up KN kf0 kf_up q1_0 q1_up q2_up m_up
    unfolding A_def B_def by (rule chunk_len_arith)
  then have "(of_int m :: rat) < of_int (2 ^ 44)" by simp
  then show ?thesis by (simp only: of_int_less_iff)
qed

text \<open>The chunk of a segment with non-negative timestamps: silence keeps the length of
  the slice in milliseconds.\<close>

lemma clean_chunk_total:
  assumes fr: "0 < frame_rate audio" and sz: "length (frames audio) < 2 ^ 32"
      and st: "0 \<le> seg_start seg" and sp: "0 \<le> seg_end seg"
  shows "\<exists>c slice n. clean_chunk audio seg = Inr c \<and>
           getitem audio (fmul (seg_start seg) 1000) (fmul (seg_end seg) 1000) = Inr slice \<and>
           audio_len slice = Inr n \<and> audio_len c = Inr n \<and>
           c = (if word seg \<in> set filler_words then silent n else slice)"
proof -
  have s0: "0 \<le> fmul (seg_start seg) 1000" and e0: "0 \<le> fmul (seg_end seg) 1000"
    using st sp by (simp_all add: fmul_nonneg)
  obtain data where g: "getitem audio (fmul (seg_start seg) 1000) (fmul (seg_end seg) 1000)
                        = Inr (spawn audio data)"
    using getitem_total [OF fr sz s0 e0] by blast
  have "0 < frame_rate (spawn audio data)" using fr by (simp add: spawn_def)
  from audio_len_pos [OF this] obtain n where n: "audio_len (spawn audio data) = Inr n" by blast
  have n0: "0 \<le> n" using n by (rule audio_len_nonneg)
  have n44: "n < 2 ^ 44" using fr sz s0 e0 g n by (rule chunk_len_bound)
  show ?thesis
  proof (cases "word seg \<in> set filler_words")
    case True
    then have "clean_chunk audio seg = Inr (silent n)" by (simp add: clean_chunk_def g n)
    moreover have "audio_len (silent n) = Inr n" using n0 n44 by (rule audio_len_silent)
    ultimately show ?thesis using g n True by simp
  next
    case False
    then have "clean_chunk audio seg = Inr (spawn audio data)" by (simp add: clean_chunk_def g)
    then show ?thesis using g n False by simp
  qed
qed


section \<open>The sum of the chunks\<close>

lemma list_all2_exists:
  "(\<forall>x\<in>set xs. \<exists>y. P x y) \<Longrightarrow> \<exists>ys. list_all2 P xs ys"
  by (induction xs) (auto simp: list_all2_Cons1)

lemma is_silence_simps [simp]:
  "is_silence []" "is_silence (a @ b) \<longleftrightarrow> is_silence a \<and> is_silence b"
  by (auto simp: is_silence_def)

lemma is_silence_silent: "is_silence (frames (silent n))"
  by (simp add: silent_def is_silence_def)

lemma convert_ok:
  assumes "c = channels a \<or> channels a = 1 \<or> c = 1" and "0 < frame_rate a" and "0 < r"
  shows "\<exists>s. convert lib c r w a = Inr s \<and> channels s = c \<and> frame_rate s = r \<and>
           sample_width s = w"
  using assms
  by (auto simp: convert_def set_channels_def set_frame_rate_def set_sample_width_def)

lemma convert_same:
  assumes "channels a = c" and "frame_rate a = r" and "sample_width a = w"
  shows "convert lib c r w a = Inr a"
  using assms by (simp add: convert_def set_channels_def set_frame_rate_def set_sample_width_def)

lemma convert_result:
  assumes "convert lib c r w a = Inr s"
  shows "channels s = c \<and> frame_rate s = r \<and> sample_width s = w \<and>
         (keeps_silence lib \<longrightarrow> is_silence (frames a) \<longrightarrow> is_silence (frames s))"
  using assms
  unfolding convert_def set_channels_def set_frame_rate_def set_sample_width_def keeps_silence_def
  by (auto split: sum.splits if_splits)

lemma append_seg_ok:
  assumes "channels a \<in> {ch, 1, max ch 1}" and "channels b \<in> {ch, 1, max ch 1}"
      and "0 < frame_rate a" and "0 < frame_rate b"
  shows "\<exists>s. append_seg lib a b = Inr s \<and> channels s \<in> {ch, 1, max ch 1} \<and> 0 < frame_rate s"
proof -
  let ?c = "max (channels a) (channels b)"
  let ?r = "max (frame_rate a) (frame_rate b)"
  let ?w = "max (sample_width a) (sample_width b)"
  have ca: "?c = channels a \<or> channels a = 1 \<or> ?c = 1"
    and cb: "?c = channels b \<or> channels b = 1 \<or> ?c = 1"
    and cK: "?c \<in> {ch, 1, max ch 1}"
    using assms(1,2) by (auto simp: max_def split: if_splits)
  have r: "0 < ?r" using assms(3) by simp
  obtain s1 where s1: "convert lib ?c ?r ?w a = Inr s1" "channels s1 = ?c" "frame_rate s1 = ?r"
    using convert_ok [OF ca assms(3) r] by blast
  obtain s2 where s2: "convert lib ?c ?r ?w b = Inr s2"
    using convert_ok [OF cb assms(4) r] by blast
  have "append_seg lib a b = Inr (spawn s1 (frames s1 @ frames s2))"
    unfolding append_seg_def Let_def by (simp only: s1 s2 sum.case)
  moreover have "channels (spawn s1 (frames s1 @ frames s2)) = ?c"
    and "frame_rate (spawn s1 (frames s1 @ frames s2)) = ?r"
    using s1 by (simp_all add: spawn_def)
  ultimately show ?thesis using cK r by (metis (no_types, lifting))
qed

lemma append_seg_Inr:
  assumes "append_seg lib a b = Inr s"
  shows "\<exists>s1 s2. convert lib (max (channels a) (channels b)) (max (frame_rate a) (frame_rate b))
                    (max (sample_width a) (sample_width b)) a = Inr s1 \<and>
                 convert lib (max (channels a) (channels b)) (max (frame_rate a) (frame_rate b))
                    (max (sample_width a) (sample_width b)) b = Inr s2 \<and>
                 s = spawn s1 (frames s1 @ frames s2)"
  using assms unfolding append_seg_def Let_def by (auto split: sum.splits)

lemma append_seg_same_format:
  assumes "channels c = channels a" and "frame_rate c = frame_rate a"
      and "sample_width c = sample_width a"
  shows "append_seg lib a c = Inr (spawn a (frames a @ frames c))"
  using assms
  by (simp add: append_seg_def convert_def set_channels_def set_frame_rate_def
        set_sample_width_def)

lemma append_seg_empty:
  assumes "frames c = []" and "channels c = channels a" and "frame_rate c = frame_rate a"
      and "sample_width c = sample_width a"
  shows "append_seg lib a c = Inr a"
  using append_seg_same_format [OF assms(2-4)] assms(1) by (simp add: spawn_def)

lemma py_sum_Seg_ok:
  assumes "\<forall>x\<in>set xs. channels x \<in> {ch, 1, max ch 1} \<and> 0 < frame_rate x"
      and "channels a \<in> {ch, 1, max ch 1}" and "0 < frame_rate a"
  shows "\<exists>out. py_sum lib (Seg a) xs = Inr (Seg out)"
  using assms
proof (induction xs arbitrary: a)
  case Nil
  then show ?case by simp
next
  case (Cons x xs)
  then obtain s where s: "append_seg lib a x = Inr s" "channels s \<in> {ch, 1, max ch 1}"
    "0 < frame_rate s"
    using append_seg_ok [of a ch x lib] by auto
  from Cons.IH [of s] Cons.prems(1) s(2,3) obtain out where "py_sum lib (Seg s) xs = Inr (Seg out)"
    by auto
  with s(1) show ?case by simp
qed

lemma py_sum_Zero_ok:
  assumes "xs \<noteq> []" and "\<forall>x\<in>set xs. channels x \<in> {ch, 1, max ch 1} \<and> 0 < frame_rate x"
  shows "\<exists>out. py_sum lib Zero xs = Inr (Seg out)"
proof -
  from assms(1) obtain x xs' where xs: "xs = x # xs'" by (cases xs) auto
  with assms(2) py_sum_Seg_ok [of xs' ch x lib] show ?thesis by auto
qed

text \<open>Chunks of one format are joined as they are.\<close>

lemma py_sum_same_format:
  assumes "\<forall>x\<in>set xs. channels x = channels a \<and> frame_rate x = frame_rate a \<and>
                       sample_width x = sample_width a"
  shows "py_sum lib (Seg a) xs = Inr (Seg (spawn a (frames a @ concat (map frames xs))))"
  using assms
proof (induction xs arbitrary: a)
  case Nil
  then show ?case by (simp add: spawn_def)
next
  case (Cons x xs)
  let ?a' = "spawn a (frames a @ frames x)"
  have app: "append_seg lib a x = Inr ?a'"
    using Cons.prems by (intro append_seg_same_format) simp_all
  have "\<forall>y\<in>set xs. channels y = channels ?a' \<and> frame_rate y = frame_rate ?a' \<and>
                      sample_width y = sample_width ?a'"
    using Cons.prems by (simp add: spawn_def)
  from Cons.IH [OF this] app show ?case by (simp add: spawn_def)
qed

lemma clean_chunk_cases:
  assumes "clean_chunk audio seg = Inr c"
  obtains (filler) slice n where "word seg \<in> set filler_words"
      and "getitem audio (fmul (seg_start seg) 1000) (fmul (seg_end seg) 1000) = Inr slice"
      and "audio_len slice = Inr n" and "c = silent n"
  | (normal) "word seg \<notin> set filler_words"
      and "getitem audio (fmul (seg_start seg) 1000) (fmul (seg_end seg) 1000) = Inr c"
  using assms by (auto simp: clean_chunk_def split: sum.splits if_splits)

lemma clean_chunk_format:
  assumes "clean_chunk audio seg = Inr c" and "0 < frame_rate audio"
  shows "channels c \<in> {channels audio, 1, max (channels audio) 1} \<and> 0 < frame_rate c"
  using assms(1)
proof (cases rule: clean_chunk_cases)
  case (filler slice n)
  then show ?thesis by (simp add: silent_def)
next
  case normal
  from getitem_format [OF normal(2)] assms(2) show ?thesis by simp
qed

section \<open>The first loop\<close>

lemma clean_loop_Inr:
  "clean_loop audio segs cs ts = Inr (cs', ts') \<Longrightarrow>
     ts' = ts @ map (\<lambda>s. (seg_start s, seg_end s)) segs \<and>
     (\<exists>new. cs' = cs @ new \<and> list_all2 (\<lambda>s c. clean_chunk audio s = Inr c) segs new)"
proof (induction segs arbitrary: cs ts)
  case Nil
  then show ?case by simp
next
  case (Cons seg segs)
  from Cons.prems obtain chunk where c: "clean_chunk audio seg = Inr chunk"
    and rest: "clean_loop audio segs (cs @ [chunk]) (ts @ [(seg_start seg, seg_end seg)])
                 = Inr (cs', ts')"
    by (auto split: sum.splits)
  from Cons.IH [OF rest] obtain new where
    "ts' = (ts @ [(seg_start seg, seg_end seg)]) @ map (\<lambda>s. (seg_start s, seg_end s)) segs"
    "cs' = (cs @ [chunk]) @ new" "list_all2 (\<lambda>s c. clean_chunk audio s = Inr c) segs new"
    by blast
  with c show ?case by (auto intro!: exI [of _ "chunk # new"])
qed

lemma clean_loop_total:
  "list_all2 (\<lambda>s c. clean_chunk audio s = Inr c) segs new \<Longrightarrow>
   clean_loop audio segs cs ts =
     Inr (cs @ new, ts @ map (\<lambda>s. (seg_start s, seg_end s)) segs)"
proof (induction segs arbitrary: cs ts new)
  case Nil
  then show ?case by simp
next
  case (Cons seg segs)
  then obtain c new' where "new = c # new'" "clean_chunk audio seg = Inr c"
    "list_all2 (\<lambda>s c. clean_chunk audio s = Inr c) segs new'"
    by (auto simp: list_all2_Cons1)
  with Cons.IH [of new' "cs @ [c]" "ts @ [(seg_start seg, seg_end seg)]"]
  show ?case by simp
qed

lemma clean_loop_nth:
  assumes "clean_loop audio segs [] [] = Inr (cs, ts)" and "k < length segs"
  shows "clean_chunk audio (segs ! k) = Inr (cs ! k)" and "length cs = length segs"
  using clean_loop_Inr [OF assms(1)] assms(2) by (auto simp: list_all2_conv_all_nth)

section \<open>The second loop and the whole function\<close>

lemma subclip_loop_Inr:
  "subclip_loop clip ts acc = Inr cs \<Longrightarrow>
     \<exists>new. cs = acc @ new \<and> list_all2 (\<lambda>p c. subclip clip (fst p) (snd p) = Inr c) ts new"
proof (induction ts arbitrary: acc)
  case Nil
  then show ?case by simp
next
  case (Cons p ts)
  obtain s e where p: "p = (s, e)" by (cases p)
  from Cons.prems p obtain c where c: "subclip clip s e = Inr c"
    and rest: "subclip_loop clip ts (acc @ [c]) = Inr cs"
    by (auto split: sum.splits)
  from Cons.IH [OF rest] obtain new where "cs = (acc @ [c]) @ new"
    "list_all2 (\<lambda>p c. subclip clip (fst p) (snd p) = Inr c) ts new" by blast
  with c p show ?case by (auto intro!: exI [of _ "c # new"])
qed

lemma subclip_loop_total:
  "list_all2 (\<lambda>p c. subclip clip (fst p) (snd p) = Inr c) ts new \<Longrightarrow>
   subclip_loop clip ts acc = Inr (acc @ new)"
proof (induction ts arbitrary: acc new)
  case Nil
  then show ?case by simp
next
  case (Cons p ts)
  obtain s e where p: "p = (s, e)" by (cases p)
  from Cons.prems p obtain c new' where "new = c # new'" "subclip clip s e = Inr c"
    "list_all2 (\<lambda>p c. subclip clip (fst p) (snd p) = Inr c) ts new'"
    by (auto simp: list_all2_Cons1)
  with Cons.IH [of new' "acc @ [c]"] p show ?case by simp
qed

text \<open>The function in terms of its chunks and sub-clips.\<close>

lemma process_eval:
  assumes chunks: "list_all2 (\<lambda>s c. clean_chunk audio s = Inr c) segs cs"
      and sum: "py_sum lib Zero cs = Inr (Seg out)"
      and clips: "list_all2 (\<lambda>s c. subclip clip (seg_start s) (seg_end s) = Inr c) segs clips"
  shows "process_video_audio_sync lib clip audio segs =
           (case concatenate_videoclips clips of
              Inl e \<Rightarrow> Inl e
            | Inr v \<Rightarrow> if frames out \<noteq> [] \<and> mp3_readable lib out then Inr (v, out)
                       else Inl OSError)"
proof -
  have loop: "clean_loop audio segs [] [] = Inr (cs, map (\<lambda>s. (seg_start s, seg_end s)) segs)"
    using clean_loop_total [OF chunks, of "[]" "[]"] by simp
  have sub: "subclip_loop clip (map (\<lambda>s. (seg_start s, seg_end s)) segs) [] = Inr clips"
    using subclip_loop_total [of clip "map (\<lambda>s. (seg_start s, seg_end s)) segs" clips "[]"] clips
    by (simp add: list_all2_map1)
  show ?thesis
    unfolding process_video_audio_sync_def
    by (simp add: loop sum sub export_def AudioFileClip_def split: sum.splits)
qed

lemma process_total:
  assumes fr: "0 < frame_rate audio" and ne: "segs \<noteq> []"
      and chunks: "list_all2 (\<lambda>s c. clean_chunk audio s = Inr c) segs cs"
      and clips: "list_all2 (\<lambda>s c. subclip clip (seg_start s) (seg_end s) = Inr c) segs clips"
  shows "\<exists>out. py_sum lib Zero cs = Inr (Seg out) \<and>
           process_video_audio_sync lib clip audio segs =
             (case concatenate_videoclips clips of
                Inl e \<Rightarrow> Inl e
              | Inr v \<Rightarrow> if frames out \<noteq> [] \<and> mp3_readable lib out then Inr (v, out)
                         else Inl OSError)"
proof -
  have len: "length cs = length segs" using chunks by (simp add: list_all2_lengthD)
  then have cs_ne: "cs \<noteq> []" using ne by auto
  have fmt: "\<forall>x\<in>set cs. channels x \<in> {channels audio, 1, max (channels audio) 1}
                \<and> 0 < frame_rate x"
  proof
    fix x assume "x \<in> set cs"
    then obtain k where "k < length cs" "x = cs ! k" by (auto simp: in_set_conv_nth)
    with chunks have "clean_chunk audio (segs ! k) = Inr x"
      by (simp add: list_all2_conv_all_nth)
    from clean_chunk_format [OF this fr]
    show "channels x \<in> {channels audio, 1, max (channels audio) 1} \<and> 0 < frame_rate x" .
  qed
  obtain out where out: "py_sum lib Zero cs = Inr (Seg out)"
    using py_sum_Zero_ok [OF cs_ne fmt] by blast
  from process_eval [OF chunks out clips] out show ?thesis by blast
qed

lemma process_Inr:
  assumes "process_video_audio_sync lib clip audio segs = Inr (v, out)"
  shows "\<exists>cs clips. list_all2 (\<lambda>s c. clean_chunk audio s = Inr c) segs cs \<and>
           py_sum lib Zero cs = Inr (Seg out) \<and>
           list_all2 (\<lambda>s c. subclip clip (seg_start s) (seg_end s) = Inr c) segs clips \<and>
           concatenate_videoclips clips = Inr v \<and>
           frames out \<noteq> [] \<and> mp3_readable lib out"
proof -
  from assms obtain cs ts clips where
    loop: "clean_loop audio segs [] [] = Inr (cs, ts)" and
    sum: "py_sum lib Zero cs = Inr (Seg out)" and
    sub: "subclip_loop clip ts [] = Inr clips" and
    cat: "concatenate_videoclips clips = Inr v" and
    rd: "frames out \<noteq> [] \<and> mp3_readable lib out"
    unfolding process_video_audio_sync_def export_def AudioFileClip_def
    by (auto split: sum.splits prod.splits sum_value.splits if_splits)
  from clean_loop_Inr [OF loop] have ts: "ts = map (\<lambda>s. (seg_start s, seg_end s)) segs"
    and chunks: "list_all2 (\<lambda>s c. clean_chunk audio s = Inr c) segs cs" by auto
  from subclip_loop_Inr [OF sub] have
    "list_all2 (\<lambda>p c. subclip clip (fst p) (snd p) = Inr c) ts clips" by auto
  then have clips: "list_all2 (\<lambda>s c. subclip clip (seg_start s) (seg_end s) = Inr c) segs clips"
    unfolding ts by (simp add: list_all2_map1)
  from chunks sum clips cat rd show ?thesis by blast
qed

section \<open>Sub-clips and their concatenation\<close>

lemma subclip_nonneg:
  assumes "0 \<le> s" and "0 \<le> e"
  shows "subclip clip s e =
           (if duration clip < s then Inl ValueError else Inr (clip\<lparr>duration := fsub e s\<rparr>))"
  using assms by (simp add: subclip_def Let_def)

lemma subclip_same:
  assumes "0 \<le> s" and "s \<le> duration clip"
  shows "subclip clip s s = Inr (clip\<lparr>duration := 0\<rparr>)"
  using assms by (simp add: subclip_def Let_def fsub_self)

lemma foldl_fadd_fixed:
  "fl acc = acc \<Longrightarrow> fl (foldl fadd acc xs) = foldl fadd acc xs"
  by (induction xs arbitrary: acc) (simp_all add: fl_fadd)

lemma foldl_fadd_insert_zero:
  assumes "fl acc = acc"
  shows "foldl fadd acc (xs @ 0 # ys) = foldl fadd acc (xs @ ys)"
proof -
  have "fl (foldl fadd acc xs) = foldl fadd acc xs" using assms by (rule foldl_fadd_fixed)
  then show ?thesis by (simp add: fadd_zero_right)
qed

lemma foldl_fadd_pos_iff:
  assumes "0 \<le> acc" and "\<forall>x\<in>set xs. 0 \<le> x"
  shows "0 \<le> foldl fadd acc xs \<and> (0 < foldl fadd acc xs \<longleftrightarrow> 0 < acc \<or> (\<exists>x\<in>set xs. 0 < x))"
  using assms
proof (induction xs arbitrary: acc)
  case Nil
  then show ?case by simp
next
  case (Cons x xs)
  have x0: "0 \<le> x" using Cons.prems(2) by simp
  have a: "0 \<le> fadd acc x" using Cons.prems(1) x0 by (rule fadd_nonneg)
  have b: "0 < fadd acc x \<longleftrightarrow> 0 < acc \<or> 0 < x" using Cons.prems(1) x0 by (rule fadd_pos_iff)
  from Cons.IH [OF a] Cons.prems(2) b show ?case by auto
qed

lemma float_sum_pos_iff:
  assumes "\<forall>x\<in>set xs. 0 \<le> x"
  shows "0 \<le> float_sum xs" and "0 < float_sum xs \<longleftrightarrow> (\<exists>x\<in>set xs. 0 < x)"
  using foldl_fadd_pos_iff [of 0 xs] assms by (simp_all add: float_sum_def)

lemma concatenate_nonneg:
  assumes "clips \<noteq> []" and "\<forall>c\<in>set clips. 0 \<le> duration c"
  shows "concatenate_videoclips clips =
           (if \<exists>c\<in>set clips. 0 < duration c
            then Inr \<lparr>duration = float_sum (map duration clips)\<rparr> else Inl IndexError)"
proof -
  have nn: "\<forall>x\<in>set (map duration clips). 0 \<le> x" using assms(2) by simp
  note p = float_sum_pos_iff [OF nn]
  have e: "(\<exists>x\<in>set (map duration clips). 0 < x) \<longleftrightarrow> (\<exists>c\<in>set clips. 0 < duration c)" by auto
  show ?thesis
  proof (cases "\<exists>c\<in>set clips. 0 < duration c")
    case True
    then have "0 < float_sum (map duration clips)" using p(2) e by simp
    then show ?thesis
      using assms(1) True by (simp add: concatenate_videoclips_def float_sum_def Let_def max_def)
  next
    case False
    then have "\<not> 0 < float_sum (map duration clips)" using p(2) e by simp
    with p(1) have "float_sum (map duration clips) = 0" by simp
    then show ?thesis
      using assms(1) False by (simp add: concatenate_videoclips_def float_sum_def Let_def)
  qed
qed


section \<open>Evaluated slices\<close>

lemma getitem_track3_1_2:
  "getitem track3 (fmul 1 1000) (fmul 2 1000) =
     Inr \<lparr>channels = 1, sample_width = 2, frame_rate = 4, frames = [[5], [6], [7], [8]]\<rparr>"
  by code_simp

lemma getitem_track3_0_1:
  "getitem track3 (fmul 0 1000) (fmul 1 1000) =
     Inr \<lparr>channels = 1, sample_width = 2, frame_rate = 4, frames = [[1], [2], [3], [4]]\<rparr>"
  by code_simp

lemma getitem_track3_1_3:
  "getitem track3 (fmul 1 1000) (fmul 3 1000) =
     Inr \<lparr>channels = 1, sample_width = 2, frame_rate = 4,
          frames = [[5], [6], [7], [8], [9], [10], [11], [12]]\<rparr>"
  by code_simp

lemma audio_len_four_frames:
  "audio_len \<lparr>channels = 1, sample_width = 2, frame_rate = 4, frames = [a, b, c, d]\<rparr> = Inr 1000"
proof -
  have "py_round (fmul 1000 (fdiv (py_float 4) (py_float 4))) = 1000" by code_simp
  then show ?thesis by (simp add: audio_len_def Let_def)
qed

lemma audio_len_eight_frames:
  "audio_len \<lparr>channels = 1, sample_width = 2, frame_rate = 4,
              frames = [a, b, c, d, e, f, g, h]\<rparr> = Inr 2000"
proof -
  have "py_round (fmul 1000 (fdiv (py_float 8) (py_float 4))) = 2000" by code_simp
  then show ?thesis by (simp add: audio_len_def Let_def)
qed

lemma audio_len_track3: "audio_len track3 = Inr 3000"
  by code_simp

section \<open>The segment classifier\<close>

text \<open>
  C3. The chunk of a segment is replaced by silence exactly when the word is one of
  \<open>um\<close>, \<open>uh\<close>, \<open>hmm\<close>, \<open>umm\<close>, compared as whole strings with their case; any
  other text, such as \<open>Um,\<close>, \<open>Um\<close> or \<open>um,\<close>, keeps the chunk as it was cut.
\<close>

theorem filler_exact_match:
  "(word seg \<in> set filler_words \<longleftrightarrow>
      word seg = ''um'' \<or> word seg = ''uh'' \<or> word seg = ''hmm'' \<or> word seg = ''umm'') \<and>
   (getitem audio (fmul (seg_start seg) 1000) (fmul (seg_end seg) 1000) = Inr chunk \<longrightarrow>
    audio_len chunk = Inr n \<longrightarrow>
      clean_chunk audio seg =
        Inr (if word seg \<in> {''um'', ''uh'', ''hmm'', ''umm''} then silent n else chunk)) \<and>
   ''Um,'' \<notin> set filler_words \<and> ''Um'' \<notin> set filler_words \<and> ''um,'' \<notin> set filler_words"
  by (auto simp: filler_words_def clean_chunk_def)

theorem filler_exact_match_witness:
  "clean_chunk track3 \<lparr>word = ''um'', seg_start = 1, seg_end = 2\<rparr> = Inr (silent 1000) \<and>
   clean_chunk track3 \<lparr>word = ''Um,'', seg_start = 1, seg_end = 2\<rparr> =
     Inr \<lparr>channels = 1, sample_width = 2, frame_rate = 4, frames = [[5], [6], [7], [8]]\<rparr>"
  using
    filler_exact_match [of "\<lparr>word = ''um'', seg_start = 1, seg_end = 2\<rparr>" track3 _ 1000]
    filler_exact_match [of "\<lparr>word = ''Um,'', seg_start = 1, seg_end = 2\<rparr>" track3 _ 1000]
    getitem_track3_1_2 audio_len_four_frames
  by simp

section \<open>The reassembler\<close>

text \<open>
  C4. Reassembling an empty transcript raises an error: the sum of no chunks is the
  integer 0, and exporting it raises \<^verbatim>\<open>AttributeError\<close>. Nothing is returned.
\<close>

theorem empty_transcript_raises:
  "process_video_audio_sync lib clip audio [] = Inl AttributeError"
  by (simp add: process_video_audio_sync_def export_def)

text \<open>
  C10. The reassembler is a function of its inputs. Whether the chunk of the \<open>k\<close>-th
  segment is replaced by silence is decided by the word of that segment alone: in two
  runs on any two tracks and any two transcripts whose \<open>k\<close>-th words agree, either
  both chunks are the silence made for them, or both are the slices as cut; the
  timestamps, the audio and the other segments play no part in the decision.
\<close>

theorem mute_decision_depends_on_word_only:
  assumes "clean_loop audio segs [] [] = Inr (cs, ts)"
      and "clean_loop audio' segs' [] [] = Inr (cs', ts')"
      and "k < length segs" and "k < length segs'"
      and "word (segs ! k) = word (segs' ! k)"
  shows "((word (segs ! k) \<in> set filler_words \<and>
           (\<exists>chunk n. getitem audio (fmul (seg_start (segs ! k)) 1000)
                                (fmul (seg_end (segs ! k)) 1000) = Inr chunk \<and>
                      audio_len chunk = Inr n \<and> cs ! k = silent n) \<and>
           (\<exists>chunk n. getitem audio' (fmul (seg_start (segs' ! k)) 1000)
                                (fmul (seg_end (segs' ! k)) 1000) = Inr chunk \<and>
                      audio_len chunk = Inr n \<and> cs' ! k = silent n))
        \<or> (word (segs ! k) \<notin> set filler_words \<and>
           getitem audio (fmul (seg_start (segs ! k)) 1000) (fmul (seg_end (segs ! k)) 1000)
             = Inr (cs ! k) \<and>
           getitem audio' (fmul (seg_start (segs' ! k)) 1000) (fmul (seg_end (segs' ! k)) 1000)
             = Inr (cs' ! k)))
       \<and> (audio = audio' \<and> segs = segs' \<longrightarrow> cs = cs' \<and> ts = ts')"
proof -
  have a: "clean_chunk audio (segs ! k) = Inr (cs ! k)"
    using clean_loop_nth(1) [OF assms(1) assms(3)] .
  have b: "clean_chunk audio' (segs' ! k) = Inr (cs' ! k)"
    using clean_loop_nth(1) [OF assms(2) assms(4)] .
  show ?thesis
  proof (cases "word (segs ! k) \<in> set filler_words")
    case True
    with a b assms(1,2,5) show ?thesis
      by (auto simp: clean_chunk_def split: sum.splits)
  next
    case False
    with a b assms(1,2,5) show ?thesis
      by (auto simp: clean_chunk_def split: sum.splits)
  qed
qed

theorem mute_decision_depends_on_word_only_witness:
  "clean_loop track3 um_early [] [] = Inr ([silent 1000], [(0, 1)]) \<and>
   clean_loop track3 um_late [] [] = Inr ([silent 2000], [(1, 3)]) \<and>
   word (um_early ! 0) = word (um_late ! 0) \<and>
   word (um_early ! 0) \<in> set filler_words \<and>
   (\<exists>chunk n. getitem track3 (fmul (seg_start (um_early ! 0)) 1000)
                 (fmul (seg_end (um_early ! 0)) 1000) = Inr chunk \<and>
              audio_len chunk = Inr n \<and> [silent 1000] ! 0 = silent n) \<and>
   (\<exists>chunk n. getitem track3 (fmul (seg_start (um_late ! 0)) 1000)
                 (fmul (seg_end (um_late ! 0)) 1000) = Inr chunk \<and>
              audio_len chunk = Inr n \<and> [silent 2000] ! 0 = silent n)"
proof -
  have e: "clean_loop track3 um_early [] [] = Inr ([silent 1000], [(0, 1)])"
    using getitem_track3_0_1 audio_len_four_frames
    by (simp add: um_early_def clean_chunk_def filler_words_def)
  have l: "clean_loop track3 um_late [] [] = Inr ([silent 2000], [(1, 3)])"
    using getitem_track3_1_3 audio_len_eight_frames
    by (simp add: um_late_def clean_chunk_def filler_words_def)
  have w: "word (um_early ! 0) = word (um_late ! 0)"
    by (simp add: um_early_def um_late_def)
  have f: "word (um_early ! 0) \<in> set filler_words"
    by (simp add: um_early_def filler_words_def)
  show ?thesis
    using mute_decision_depends_on_word_only [OF e l _ _ w] e l w f
    by (simp add: um_early_def um_late_def)
qed

section \<open>Slicing out of range\<close>

lemma audio_len_bound:
  assumes fr: "0 < frame_rate a" and sz: "length (frames a) < 2 ^ 32"
      and n: "audio_len a = Inr n"
  shows "n < 2 ^ 44"
proof -
  have z: "(0::rat) \<le> 0" by simp
  define A where "A = 1 + unit_roundoff"
  define B where "B = 1 - unit_roundoff"
  define N :: rat where "N = of_nat (length (frames a))"
  define F where "F = py_float (frame_rate a)"
  define q1 where "q1 = fdiv (py_float (int (length (frames a)))) F"
  define q2 where "q2 = fmul 1000 q1"
  have B: "0 < B" by (simp add: B_def unit_roundoff_def)
  have A0: "0 \<le> A" by (simp add: A_def unit_roundoff_def)
  have N0: "0 \<le> N" by (simp add: N_def)
  have N32: "N \<le> 2 ^ 32"
  proof -
    have "(of_nat (length (frames a)) :: rat) < of_nat (2 ^ 32)"
      using sz by (simp only: of_nat_less_iff)
    then show ?thesis by (simp add: N_def)
  qed
  have fr1: "(1::rat) \<le> of_int (frame_rate a)" using fr by simp
  have FB: "B \<le> F"
  proof -
    have "B \<le> of_int (frame_rate a) * B" using fr1 B by simp
    also have "\<dots> \<le> fl (of_int (frame_rate a))"
      unfolding B_def using fr1 by (intro fl_lower) simp
    finally show ?thesis by (simp add: F_def py_float_def)
  qed
  have Fpos: "0 < F" using FB B by linarith
  have c_up: "(0::rat) \<le> F / 1000 * A" using Fpos A0 by simp
  have th_up: "(0::rat) \<le> 2 * 0 * A" by simp
  have KN: "N \<le> N + 0" by simp
  define kf where "kf = py_float (int (length (frames a)))"
  have kf_eq: "kf = fl N" by (simp add: kf_def py_float_def N_def)
  have kf0: "0 \<le> kf" unfolding kf_eq using N0 by (rule fl_nonneg)
  have kf_up: "kf \<le> N * A" unfolding kf_eq A_def using N0 by (rule fl_upper)
  have kF: "0 \<le> kf / F" using kf0 Fpos by simp
  have q1_0: "0 \<le> q1" unfolding q1_def kf_def [symmetric] fdiv_def using kF by (rule fl_nonneg)
  have q1_up: "q1 \<le> kf / F * A"
    unfolding q1_def kf_def [symmetric] fdiv_def A_def using kF by (rule fl_upper)
  have q2_up: "q2 \<le> 1000 * q1 * A"
    unfolding q2_def fmul_def A_def using q1_0 by (intro fl_upper) simp
  have "n = py_round q2"
    using n audio_len_pos [OF fr] by (simp add: q2_def q1_def F_def)
  then have m_up: "of_int n \<le> q2 + 1 / 2" using py_round_upper by simp
  have "(of_int n :: rat) < 2 ^ 44"
    using N0 N32 FB z c_up th_up KN kf0 kf_up q1_0 q1_up q2_up m_up
    unfolding A_def B_def by (rule chunk_len_arith)
  then have "(of_int n :: rat) < of_int (2 ^ 44)" by simp
  then show ?thesis by (simp only: of_int_less_iff)
qed

lemma getitem_clamped:
  assumes "audio_len a = Inr n"
  shows "getitem a start stop = getitem a (min_len start n) (min_len stop n)"
  unfolding getitem_def by (simp only: assms sum.case min_len_idem)

text \<open>
  C6 (amended). Slicing the audio between two non-negative times never raises: bounds
  after the end of the track act as the length of the track. Sub-clipping the video
  does not clamp: a start after the end of the clip raises \<^verbatim>\<open>ValueError\<close>, and an
  end after it is kept as it is. The track holds fewer than \<open>2 ^ 32\<close> frames, as every
  track does that fits into memory.
\<close>

theorem slicing_out_of_range:
  assumes "0 < frame_rate audio" and "length (frames audio) < 2 ^ 32"
      and "audio_len audio = Inr n"
      and "0 \<le> start" and "0 \<le> stop" and "0 \<le> t_start" and "0 \<le> t_end"
  shows "(\<exists>chunk. getitem audio start stop = Inr chunk) \<and>
         getitem audio start stop = getitem audio (min start (of_int n)) (min stop (of_int n)) \<and>
         subclip clip t_start t_end =
           (if duration clip < t_start then Inl ValueError
            else Inr (clip\<lparr>duration := fsub t_end t_start\<rparr>))"
proof -
  have "\<exists>chunk. getitem audio start stop = Inr chunk"
    using getitem_total [OF assms(1,2,4,5)] by blast
  moreover have "getitem audio start stop
                   = getitem audio (min start (of_int n)) (min stop (of_int n))"
  proof -
    have "0 \<le> n" using assms(3) by (rule audio_len_nonneg)
    moreover have "n < 2 ^ 44" using assms(1,2,3) by (rule audio_len_bound)
    ultimately have "\<bar>n\<bar> < 2 ^ 53" by simp
    then have "min_len start n = min start (of_int n)" "min_len stop n = min stop (of_int n)"
      by (simp_all add: min_len_min)
    with getitem_clamped [OF assms(3), of start stop] show ?thesis by simp
  qed
  ultimately show ?thesis using subclip_nonneg [OF assms(6,7)] by simp
qed

theorem slicing_out_of_range_witness:
  "(\<exists>chunk. getitem track3 5000 6000 = Inr chunk) \<and>
   getitem track3 5000 6000 = getitem track3 3000 3000 \<and>
   subclip clip3 5 6 = Inl ValueError \<and>
   subclip clip3 1 6 = Inr \<lparr>duration = 5\<rparr>"
proof -
  have f: "fsub 6 1 = 5" by code_simp
  show ?thesis
    using slicing_out_of_range [of track3 3000 5000 6000 5 6 clip3]
      slicing_out_of_range [of track3 3000 5000 6000 1 6 clip3] audio_len_track3 f
    by (simp add: track3_def clip3_def)
qed

theorem slicing_out_of_range_counterexample:
  "process_video_audio_sync plain_libraries clip3 track3 beyond = Inl ValueError"
  by code_simp

section \<open>The resynchronizer\<close>





section \<open>Evaluation on the one-second tracks\<close>

lemma length_ramp: "length (ramp i j) = j - i"
  by (simp add: ramp_def)

lemma take_drop_ramp: "i + m \<le> N \<Longrightarrow> take m (drop i (ramp 0 N)) = ramp i (i + m)"
  by (simp add: ramp_def take_map drop_map take_upt)

lemma ramp_empty_iff: "ramp i j = [] \<longleftrightarrow> j \<le> i"
  by (auto simp: ramp_def)

lemma getitem_ramp:
  assumes "frames a = ramp 0 N" and "audio_len a = Inr n"
      and "0 \<le> start" and "start \<le> of_int n" and "0 \<le> stop" and "stop \<le> of_int n"
      and "py_int (frame_count_ms a start) = int s" and "py_int (frame_count_ms a stop) = int t"
      and "s \<le> t" and "t \<le> N"
  shows "getitem a start stop = Inr (a\<lparr>frames := ramp s t\<rparr>)"
proof -
  have le: "0 \<le> int s" "int s \<le> int t" "int t \<le> int (length (frames a))"
    using assms(1,9,10) by (simp_all add: length_ramp)
  have "getitem a start stop =
          Inr (spawn a (take (nat (int t - int s)) (drop (nat (int s)) (frames a))))"
    using assms(2-8) le by (rule getitem_in_data)
  moreover have "take (nat (int t - int s)) (drop (nat (int s)) (frames a)) = ramp s t"
  proof -
    have "nat (int t - int s) = t - s" by simp
    moreover have "s + (t - s) \<le> N" using assms(9,10) by simp
    ultimately show ?thesis
      using take_drop_ramp [of s "t - s" N] assms(1,9) by simp
  qed
  ultimately show ?thesis by (simp add: spawn_def)
qed

lemma frame_count_voice:
  "frame_count_ms voice x = fmul x (fdiv (py_float 11025) 1000)"
  by (simp add: frame_count_ms_def voice_def)

lemma audio_len_rate_11025:
  "audio_len \<lparr>channels = c, sample_width = w, frame_rate = 11025, frames = ramp i j\<rparr> =
     Inr (py_round (fmul 1000 (fdiv (py_float (int (j - i))) (py_float 11025))))"
  using audio_len_pos
    [of "\<lparr>channels = c, sample_width = w, frame_rate = 11025, frames = ramp i j\<rparr>"]
  by (simp add: length_ramp)

lemma audio_len_voice: "audio_len voice = Inr 1000"
proof -
  have "py_round (fmul 1000 (fdiv (py_float 11025) (py_float 11025))) = 1000" by code_simp
  then show ?thesis unfolding voice_def audio_len_rate_11025 by simp
qed

lemma times_ms:
  "fmul 0 1000 = 0" "fmul (1 / 4) 1000 = 250" "fmul (1 / 2) 1000 = 500"
  "fmul (3 / 4) 1000 = 750" "fmul 1 1000 = 1000" "fmul 2 1000 = 2000"
  "fmul (fl (1 / 10)) 1000 = 100" "fmul (fl (2 / 10)) 1000 = 200"
  "fmul (fl (9 / 10)) 1000 = 900" "fmul 5 1000 = 5000"
  by code_simp+

lemma pos_11025:
  "py_int (fmul 0 (fdiv (py_float 11025) 1000)) = int 0"
  "py_int (fmul 250 (fdiv (py_float 11025) 1000)) = int 2756"
  "py_int (fmul 500 (fdiv (py_float 11025) 1000)) = int 5512"
  "py_int (fmul 750 (fdiv (py_float 11025) 1000)) = int 8268"
  "py_int (fmul 1000 (fdiv (py_float 11025) 1000)) = int 11025"
  "py_int (fmul 100 (fdiv (py_float 11025) 1000)) = int 1102"
  "py_int (fmul 200 (fdiv (py_float 11025) 1000)) = int 2205"
  "py_int (fmul 900 (fdiv (py_float 11025) 1000)) = int 9922"
  by code_simp+

lemma voice_slice:
  assumes "0 \<le> start" and "start \<le> 1000" and "0 \<le> stop" and "stop \<le> 1000"
      and "py_int (fmul start (fdiv (py_float 11025) 1000)) = int s"
      and "py_int (fmul stop (fdiv (py_float 11025) 1000)) = int t"
      and "s \<le> t" and "t \<le> 11025"
  shows "getitem voice start stop = Inr (voice\<lparr>frames := ramp s t\<rparr>)"
  using assms
  by (intro getitem_ramp [where N = 11025 and n = 1000])
     (simp_all add: audio_len_voice frame_count_voice, simp add: voice_def)

lemma voice_slices:
  "getitem voice 0 250 = Inr (voice\<lparr>frames := ramp 0 2756\<rparr>)"
  "getitem voice 250 500 = Inr (voice\<lparr>frames := ramp 2756 5512\<rparr>)"
  "getitem voice 500 1000 = Inr (voice\<lparr>frames := ramp 5512 11025\<rparr>)"
  "getitem voice 500 750 = Inr (voice\<lparr>frames := ramp 5512 8268\<rparr>)"
  "getitem voice 0 500 = Inr (voice\<lparr>frames := ramp 0 5512\<rparr>)"
  "getitem voice 0 200 = Inr (voice\<lparr>frames := ramp 0 2205\<rparr>)"
  "getitem voice 200 900 = Inr (voice\<lparr>frames := ramp 2205 9922\<rparr>)"
  "getitem voice 100 200 = Inr (voice\<lparr>frames := ramp 1102 2205\<rparr>)"
  by (rule voice_slice; simp add: pos_11025)+



section \<open>The reassembler on the one-second track\<close>

lemma silent_250:
  "silent 250 = \<lparr>channels = 1, sample_width = 2, frame_rate = 11025,
                  frames = replicate 2756 [0]\<rparr>"
proof -
  have "nat (py_int (fmul (py_float 11025) (fdiv (py_float 250) 1000))) = 2756" by code_simp
  then show ?thesis by (simp add: silent_def)
qed

lemma silent_100:
  "silent 100 = \<lparr>channels = 1, sample_width = 2, frame_rate = 11025,
                  frames = replicate 1102 [0]\<rparr>"
proof -
  have "nat (py_int (fmul (py_float 11025) (fdiv (py_float 100) 1000))) = 1102" by code_simp
  then show ?thesis by (simp add: silent_def)
qed

lemma len_11025:
  "py_round (fmul 1000 (fdiv (py_float (int 2756)) (py_float 11025))) = 250"
  "py_round (fmul 1000 (fdiv (py_float (int 1103)) (py_float 11025))) = 100"
  by code_simp+

lemma voice_chunk_len:
  "audio_len (voice\<lparr>frames := ramp 0 2756\<rparr>) = Inr 250"
  "audio_len (voice\<lparr>frames := ramp 1102 2205\<rparr>) = Inr 100"
  using len_11025 unfolding voice_def by (simp_all add: audio_len_rate_11025)

lemma chunks_talk:
  "list_all2 (\<lambda>s c. clean_chunk voice s = Inr c) talk
     [silent 250, voice\<lparr>frames := ramp 2756 5512\<rparr>, voice\<lparr>frames := ramp 5512 11025\<rparr>]"
  by (simp add: talk_def clean_chunk_def times_ms voice_slices voice_chunk_len filler_words_def)

lemma sum_talk:
  "py_sum lib Zero
     [silent 250, voice\<lparr>frames := ramp 2756 5512\<rparr>, voice\<lparr>frames := ramp 5512 11025\<rparr>] =
   Inr (Seg \<lparr>channels = 1, sample_width = 2, frame_rate = 11025,
             frames = replicate 2756 [0] @ ramp 2756 5512 @ ramp 5512 11025\<rparr>)"
  using py_sum_same_format
    [of "[voice\<lparr>frames := ramp 2756 5512\<rparr>, voice\<lparr>frames := ramp 5512 11025\<rparr>]"
        "silent 250" lib]
  by (simp add: silent_250 voice_def spawn_def)

lemma clips_talk:
  "list_all2 (\<lambda>s c. subclip clip1 (seg_start s) (seg_end s) = Inr c) talk
     [\<lparr>duration = 1 / 4\<rparr>, \<lparr>duration = 1 / 4\<rparr>, \<lparr>duration = 1 / 2\<rparr>]"
proof -
  have "subclip clip1 0 (1 / 4) = Inr \<lparr>duration = 1 / 4\<rparr>"
    "subclip clip1 (1 / 4) (1 / 2) = Inr \<lparr>duration = 1 / 4\<rparr>"
    "subclip clip1 (1 / 2) 1 = Inr \<lparr>duration = 1 / 2\<rparr>"
    by code_simp+
  then show ?thesis by (simp add: talk_def)
qed

lemma concat_talk:
  "concatenate_videoclips [\<lparr>duration = 1 / 4\<rparr>, \<lparr>duration = 1 / 4\<rparr>, \<lparr>duration = 1 / 2\<rparr>]
     = Inr \<lparr>duration = 1\<rparr>"
  by code_simp

lemma process_talk:
  "process_video_audio_sync plain_libraries clip1 voice talk =
     Inr (\<lparr>duration = 1\<rparr>,
          \<lparr>channels = 1, sample_width = 2, frame_rate = 11025,
             frames = replicate 2756 [0] @ ramp 2756 5512 @ ramp 5512 11025\<rparr>)"
  using process_eval [OF chunks_talk sum_talk clips_talk, of plain_libraries]
  by (simp add: concat_talk plain_libraries_def)

lemma written_talk: "cleaned_audio_written plain_libraries voice talk"
  using clean_loop_total [OF chunks_talk, of "[]" "[]"] sum_talk [of plain_libraries]
  by (simp add: cleaned_audio_written_def)

section \<open>The resynchronizer on its own duration\<close>

lemma audio_len_rate_24000:
  "audio_len \<lparr>channels = c, sample_width = w, frame_rate = 24000, frames = ramp i j\<rparr> =
     Inr (py_round (fmul 1000 (fdiv (py_float (int (j - i))) (py_float 24000))))"
  using audio_len_pos
    [of "\<lparr>channels = c, sample_width = w, frame_rate = 24000, frames = ramp i j\<rparr>"]
  by (simp add: length_ramp)

lemma audio_len_speech1: "audio_len speech1 = Inr 1000"
proof -
  have "py_round (fmul 1000 (fdiv (py_float 24000) (py_float 24000))) = 1000" by code_simp
  then show ?thesis unfolding speech1_def audio_len_rate_24000 by simp
qed

lemma audio_len_speech2043: "audio_len speech2043 = Inr 2043"
proof -
  have "py_round (fmul 1000 (fdiv (py_float 49032) (py_float 24000))) = 2043" by code_simp
  then show ?thesis unfolding speech2043_def audio_len_rate_24000 by simp
qed

lemma fdiv_self: "x \<noteq> 0 \<Longrightarrow> fdiv x x = 1"
  using fl_of_int [of 1] by (simp add: fdiv_def)

lemma fmul_one_right: "fmul x 1 = fl x"
  by (simp add: fmul_def)

lemma adjust_unchanged:
  assumes "audio_len audio = Inr n" and "0 < n"
      and "fmul target_duration 1000 = py_float n"
      and "\<bar>frame_rate audio\<bar> < 2 ^ 53"
  shows "speed_factor n target_duration = Inr 1"
    and "adjust_audio_speed_pydub lib audio target_duration = Inr audio"
proof -
  have p: "py_float n \<noteq> 0" using py_float_pos [OF assms(2)] by simp
  show sf: "speed_factor n target_duration = Inr 1"
    using p by (simp add: speed_factor_def Let_def assms(3) fdiv_self)
  have "fmul (py_float (frame_rate audio)) 1 = of_int (frame_rate audio)"
    using assms(4) by (simp add: fmul_one_right py_float_def fl_idem fl_of_int)
  then have "py_int (fmul (py_float (frame_rate audio)) 1) = frame_rate audio"
    by (simp add: py_int_of_int)
  then show "adjust_audio_speed_pydub lib audio target_duration = Inr audio"
    unfolding adjust_audio_speed_pydub_def using assms(1) sf
    by (simp add: set_frame_rate_def)
qed

text \<open>
  C8 (amended). When the target duration times 1000, as the floats give it, is the
  current length of the track, and that length is positive, the speed factor is 1 and the
  track is returned as it is. The frame rate is below \<open>2 ^ 53\<close>, so that it is a
  float.
\<close>

theorem resync_to_own_duration:
  assumes "audio_len audio = Inr n" and "0 < n"
      and "fmul target_duration 1000 = py_float n"
      and "\<bar>frame_rate audio\<bar> < 2 ^ 53"
  shows "speed_factor n target_duration = Inr 1 \<and>
         adjust_audio_speed_pydub lib audio target_duration = Inr audio"
  using adjust_unchanged [OF assms] by simp

theorem resync_to_own_duration_witness:
  "speed_factor 1000 1 = Inr 1 \<and>
   adjust_audio_speed_pydub plain_libraries speech1 1 = Inr speech1"
proof -
  have "fmul 1 1000 = py_float 1000" by code_simp
  moreover have "\<bar>frame_rate speech1\<bar> < 2 ^ 53" by (simp add: speech1_def)
  ultimately show ?thesis
    using resync_to_own_duration [of speech1 1000 1 plain_libraries] audio_len_speech1
    by simp
qed

theorem resync_to_own_duration_counterexample:
  "audio_len speech2043 = Inr 2043 \<and>
   speed_factor 2043 (fdiv (py_float 2043) 1000) = Inr (1 - 1 / 2 ^ 53) \<and>
   py_int (fmul (py_float (frame_rate speech2043)) (1 - 1 / 2 ^ 53)) = 23999 \<and>
   frame_rate speech2043 = 24000 \<and>
   audio_len empty_speech = Inr 0 \<and>
   adjust_audio_speed_pydub plain_libraries empty_speech (fdiv (py_float 0) 1000)
     = Inl ZeroDivisionError"
proof -
  have a: "speed_factor 2043 (fdiv (py_float 2043) 1000) = Inr (1 - 1 / 2 ^ 53)" by code_simp
  have b: "py_int (fmul (py_float 24000) (1 - 1 / 2 ^ 53)) = 23999" by code_simp
  have c: "audio_len empty_speech = Inr 0" by code_simp
  have d: "adjust_audio_speed_pydub plain_libraries empty_speech (fdiv (py_float 0) 1000)
             = Inl ZeroDivisionError" by code_simp
  show ?thesis using audio_len_speech2043 a b c d by (simp add: speech2043_def)
qed

section \<open>The files of a run\<close>

lemma adjust_speech1: "adjust_audio_speed_pydub plain_libraries speech1 1 = Inr speech1"
proof -
  have "fmul 1 1000 = py_float 1000" by code_simp
  moreover have "\<bar>frame_rate speech1\<bar> < 2 ^ 53" by (simp add: speech1_def)
  ultimately show ?thesis using audio_len_speech1 by (intro adjust_unchanged(2) [of _ 1000]) simp_all
qed

lemma pipeline_all_fine:
  "pipeline all_fine fresh =
     \<lparr>files = {cleaned_audio_path, ai_audio_path, adjusted_ai_audio_path, final_video_path},
      reports = [], shown = Some final_video_path, uncaught = None\<rparr>"
proof -
  have t: "try_body all_fine voice
             \<lparr>files = {temp_audio_path, temp_video_path}, reports = [], shown = None,
                uncaught = None\<rparr> =
           (False, \<lparr>files = {final_video_path, adjusted_ai_audio_path, ai_audio_path,
                              cleaned_audio_path, temp_audio_path, temp_video_path},
                     reports = [], shown = Some final_video_path, uncaught = None\<rparr>)"
    by (simp add: try_body_def all_fine_def written_talk process_talk adjust_speech1 Let_def)
  show ?thesis
    unfolding pipeline_def Let_def
    apply (simp add: all_fine_def fresh_def)
    apply (simp only: t [unfolded all_fine_def])
    apply (simp add: cleanup_def Let_def)
    apply (auto simp: temp_audio_path_def temp_video_path_def cleaned_audio_path_def
             ai_audio_path_def adjusted_ai_audio_path_def final_video_path_def)
    done
qed


lemma try_body_uncaught:
  assumes "try_body sv audio st = (b, st')"
  shows "uncaught st' = uncaught st"
  using assms unfolding try_body_def Let_def
  by (auto split: transcription.splits correction.splits sum.splits option.splits
        prod.splits if_splits)

lemma try_body_remove_fails:
  "try_body (sv\<lparr>remove_fails := f\<rparr>) audio st = try_body sv audio st"
  by (auto simp: try_body_def Let_def split: transcription.splits correction.splits
        sum.splits option.splits prod.splits)

lemma pipeline_cleanup:
  assumes "extracted_audio sv = Some audio"
  shows "\<exists>st2. pipeline sv st = cleanup sv st2 \<and>
           (\<forall>f. pipeline (sv\<lparr>remove_fails := f\<rparr>) st = cleanup (sv\<lparr>remove_fails := f\<rparr>) st2) \<and>
           uncaught st2 = uncaught st"
proof -
  let ?st0 = "st\<lparr>files := insert temp_video_path (files st)\<rparr>"
  let ?st1 = "?st0\<lparr>files := insert temp_audio_path (files ?st0)\<rparr>"
  let ?st2 = "case transcription sv of
                NoTranscription \<Rightarrow> ?st1\<lparr>reports := reports ?st1 @ [TranscriptionFailed]\<rparr>
              | _ \<Rightarrow> (case try_body sv audio ?st1 of
                         (True, s) \<Rightarrow> s\<lparr>reports := reports s @ [ProcessingError]\<rparr>
                       | (False, s) \<Rightarrow> s)"
  have a: "pipeline sv st = cleanup sv ?st2"
    unfolding pipeline_def Let_def assms by (simp only: option.case)
  have b: "pipeline (sv\<lparr>remove_fails := f\<rparr>) st = cleanup (sv\<lparr>remove_fails := f\<rparr>) ?st2" for f
  proof -
    have e: "extracted_audio (sv\<lparr>remove_fails := f\<rparr>) = Some audio"
      and t: "transcription (sv\<lparr>remove_fails := f\<rparr>) = transcription sv"
      using assms by simp_all
    show ?thesis
      unfolding pipeline_def Let_def e t try_body_remove_fails by (simp only: option.case)
  qed
  have c: "uncaught ?st2 = uncaught st"
  proof (cases "try_body sv audio ?st1")
    case (Pair b s)
    from try_body_uncaught [OF this] Pair show ?thesis
      by (auto split: transcription.splits bool.splits)
  qed
  from a b c show ?thesis by blast
qed

lemma cleanup_files:
  "(\<not> remove_fails sv temp_audio_path \<longrightarrow> temp_audio_path \<notin> files (cleanup sv st)) \<and>
   (\<not> remove_fails sv temp_audio_path \<and> \<not> remove_fails sv temp_video_path \<longrightarrow>
      temp_video_path \<notin> files (cleanup sv st)) \<and>
   (remove_fails sv temp_audio_path \<or> remove_fails sv temp_video_path \<longrightarrow>
      CleanupError \<in> set (reports (cleanup sv st))) \<and>
   uncaught (cleanup sv st) = uncaught st \<and>
   shown (cleanup sv st) = shown st \<and>
   filter (\<lambda>r. r \<noteq> CleanupError) (reports (cleanup sv st))
     = filter (\<lambda>r. r \<noteq> CleanupError) (reports st) \<and>
   files st - {temp_audio_path, temp_video_path} \<subseteq> files (cleanup sv st)"
  by (auto simp: cleanup_def Let_def)





section \<open>Zero-length segments\<close>

lemma clean_chunk_same:
  assumes "0 < frame_rate audio" and "seg_start z = seg_end z"
  shows "\<exists>chunk. clean_chunk audio z = Inr chunk \<and> frames chunk = [] \<and> audio_len chunk = Inr 0 \<and>
           chunk = (if word z \<in> set filler_words then silent 0 else spawn audio [])"
proof -
  obtain n where n: "audio_len audio = Inr n" using audio_len_pos [OF assms(1)] by blast
  have g: "getitem audio (fmul (seg_start z) 1000) (fmul (seg_end z) 1000) = Inr (spawn audio [])"
    unfolding assms(2) using n by (rule getitem_same)
  have l: "audio_len (spawn audio []) = Inr 0"
    using assms(1) by (intro audio_len_empty) (simp_all add: spawn_def)
  show ?thesis
  proof (cases "word z \<in> set filler_words")
    case True
    then have "clean_chunk audio z = Inr (silent 0)"
      by (simp add: clean_chunk_def g l)
    moreover have "audio_len (silent 0) = Inr 0" by (intro audio_len_silent) simp_all
    ultimately show ?thesis using frames_silent_zero True by simp
  next
    case False
    then have "clean_chunk audio z = Inr (spawn audio [])"
      by (simp add: clean_chunk_def g)
    moreover have "frames (spawn audio []) = []" by (simp add: spawn_def)
    ultimately show ?thesis using l False by simp
  qed
qed

lemma process_eval_loop:
  assumes chunks: "list_all2 (\<lambda>s c. clean_chunk audio s = Inr c) segs cs"
      and sum: "py_sum lib Zero cs = Inr (Seg out)"
  shows "process_video_audio_sync lib clip audio segs =
           (case subclip_loop clip (map (\<lambda>s. (seg_start s, seg_end s)) segs) [] of
              Inl e \<Rightarrow> Inl e
            | Inr clips \<Rightarrow>
                (case concatenate_videoclips clips of
                   Inl e \<Rightarrow> Inl e
                 | Inr v \<Rightarrow> if frames out \<noteq> [] \<and> mp3_readable lib out then Inr (v, out)
                            else Inl OSError))"
proof -
  have loop: "clean_loop audio segs [] [] = Inr (cs, map (\<lambda>s. (seg_start s, seg_end s)) segs)"
    using clean_loop_total [OF chunks, of "[]" "[]"] by simp
  show ?thesis
    unfolding process_video_audio_sync_def
    by (simp add: loop sum export_def AudioFileClip_def split: sum.splits)
qed

lemma concatenate_zero: "concatenate_videoclips [clip\<lparr>duration := 0\<rparr>] = Inl IndexError"
  by (simp add: concatenate_videoclips_def fadd_def fl_zero)

lemma process_lone_zero:
  assumes "0 < frame_rate audio" and "seg_start z = seg_end z"
      and "0 \<le> seg_start z" and "seg_start z \<le> duration clip"
  shows "process_video_audio_sync lib clip audio [z] = Inl IndexError"
proof -
  obtain chunk where chunk: "clean_chunk audio z = Inr chunk"
    using clean_chunk_same [OF assms(1,2)] by blast
  have sub: "subclip clip (seg_start z) (seg_end z) = Inr (clip\<lparr>duration := 0\<rparr>)"
    unfolding assms(2) [symmetric] using assms(3,4) by (rule subclip_same)
  have a: "list_all2 (\<lambda>s c. clean_chunk audio s = Inr c) [z] [chunk]" using chunk by simp
  have b: "py_sum lib Zero [chunk] = Inr (Seg chunk)" by simp
  have c: "list_all2 (\<lambda>s c. subclip clip (seg_start s) (seg_end s) = Inr c) [z]
             [clip\<lparr>duration := 0\<rparr>]" using sub by simp
  show ?thesis using process_eval [OF a b c] by (simp add: concatenate_zero)
qed

lemma concatenate_insert_zero:
  "concatenate_videoclips (k1 @ clip\<lparr>duration := 0\<rparr> # k2) = Inr v \<longleftrightarrow>
   k1 @ k2 \<noteq> [] \<and> concatenate_videoclips (k1 @ k2) = Inr v"
proof -
  have "foldl fadd 0 (map duration (k1 @ clip\<lparr>duration := 0\<rparr> # k2))
          = foldl fadd 0 (map duration (k1 @ k2))"
    using foldl_fadd_insert_zero [of 0 "map duration k1" "map duration k2"]
    by (simp add: fl_zero)
  then show ?thesis
    by (cases "k1 @ k2 = []")
       (auto simp: concatenate_videoclips_def Let_def fadd_def fl_zero split: if_splits)
qed

lemma spawn_same_format:
  "channels a = channels b \<Longrightarrow> sample_width a = sample_width b \<Longrightarrow>
   frame_rate a = frame_rate b \<Longrightarrow> spawn a d = spawn (b :: AudioSegment) d"
  by (cases a, cases b) (simp add: spawn_def)

lemma py_sum_Zero_same_format:
  assumes "cs \<noteq> []"
      and "\<forall>x\<in>set cs. channels x = channels a \<and> frame_rate x = frame_rate a \<and>
                        sample_width x = sample_width a"
  shows "py_sum lib Zero cs = Inr (Seg (spawn a (concat (map frames cs))))"
proof -
  from assms(1) obtain c rest where cs: "cs = c # rest" by (cases cs) auto
  have "\<forall>x\<in>set rest. channels x = channels c \<and> frame_rate x = frame_rate c \<and>
                       sample_width x = sample_width c"
    using assms(2) cs by simp
  from py_sum_same_format [OF this, of lib]
  have "py_sum lib Zero cs = Inr (Seg (spawn c (concat (map frames cs))))"
    by (simp add: cs spawn_def)
  moreover have "spawn c (concat (map frames cs)) = spawn a (concat (map frames cs))"
    using assms(2) cs by (intro spawn_same_format) simp_all
  ultimately show ?thesis by simp
qed

lemma chunks_same_format:
  assumes "list_all2 (\<lambda>s c. clean_chunk audio s = Inr c) segs cs"
      and "no_conversion audio segs"
  shows "\<forall>x\<in>set cs. channels x = channels audio \<and> frame_rate x = frame_rate audio \<and>
                      sample_width x = sample_width audio"
proof
  fix x assume "x \<in> set cs"
  then obtain k where k: "k < length cs" "x = cs ! k" by (auto simp: in_set_conv_nth)
  with assms(1) have c: "clean_chunk audio (segs ! k) = Inr x" and kl: "k < length segs"
    by (simp_all add: list_all2_conv_all_nth)
  from c show "channels x = channels audio \<and> frame_rate x = frame_rate audio \<and>
               sample_width x = sample_width audio"
  proof (cases rule: clean_chunk_cases)
    case (filler slice n)
    with assms(2) kl have "channels audio = 1 \<and> sample_width audio = 2 \<and> frame_rate audio = 11025"
      unfolding no_conversion_def by (meson nth_mem)
    with filler(4) show ?thesis by (simp add: silent_def)
  next
    case normal
    from getitem_format [OF normal(2)] show ?thesis .
  qed
qed

lemma process_same_format:
  assumes "process_video_audio_sync lib clip audio segs = Inr (v, out)"
      and "no_conversion audio segs"
  shows "\<exists>cs. list_all2 (\<lambda>s c. clean_chunk audio s = Inr c) segs cs \<and>
              out = spawn audio (concat (map frames cs))"
proof -
  from process_Inr [OF assms(1)] obtain cs where
    cs: "list_all2 (\<lambda>s c. clean_chunk audio s = Inr c) segs cs" and
    sum: "py_sum lib Zero cs = Inr (Seg out)" by blast
  have "segs \<noteq> []" using assms(1) by (auto simp: process_video_audio_sync_def export_def)
  then have ne: "cs \<noteq> []" using cs by auto
  from py_sum_Zero_same_format [OF ne chunks_same_format [OF cs assms(2)], of lib] sum
  show ?thesis using cs by auto
qed

lemma process_hello:
  "process_video_audio_sync plain_libraries clip1 voice
     [\<lparr>word = ''hello'', seg_start = 1 / 4, seg_end = 1 / 2\<rparr>] =
   Inr (\<lparr>duration = 1 / 4\<rparr>, voice\<lparr>frames := ramp 2756 5512\<rparr>)"
proof -
  let ?segs = "[\<lparr>word = ''hello'', seg_start = 1 / 4, seg_end = 1 / 2\<rparr>]"
  have a: "list_all2 (\<lambda>s c. clean_chunk voice s = Inr c) ?segs [voice\<lparr>frames := ramp 2756 5512\<rparr>]"
    by (simp add: clean_chunk_def times_ms voice_slices filler_words_def)
  have b: "py_sum plain_libraries Zero [voice\<lparr>frames := ramp 2756 5512\<rparr>]
             = Inr (Seg (voice\<lparr>frames := ramp 2756 5512\<rparr>))" by simp
  have "subclip_loop clip1 [(1 / 4, 1 / 2)] [] = Inr [\<lparr>duration = 1 / 4\<rparr>]" by code_simp
  moreover have "concatenate_videoclips [\<lparr>duration = 1 / 4\<rparr>] = Inr \<lparr>duration = 1 / 4\<rparr>"
    by code_simp
  ultimately show ?thesis
    using process_eval_loop [OF a b, of clip1]
    by (simp add: plain_libraries_def voice_def ramp_empty_iff)
qed




end
